theory Spec2Isabelle
  imports Main "HOL-Library.Sublist" "HOL-Library.Multiset"
begin

section \<open>The file scanner: \<open>SearchEngine::searchInFile\<close>\<close>

text \<open>
  A \<open>std::string\<close> is a byte sequence, a \<open>string\<close> here. A C++ \<open>int\<close> is 32 bits
  wide: it is an integer between \<open>- 2^31\<close> and \<open>2^31 - 1\<close>, and an increment of
  \<open>2^31 - 1\<close> gives \<open>- 2^31\<close>. For the two \<open>std::atomic<int>\<close> counters this is what
  the language defines; for the line number, a plain \<open>int\<close>, it is what the compiled
  program does. \<open>int32\<close> brings an integer into that range.
\<close>

definition int32 :: "int \<Rightarrow> int" where
  "int32 x = (x + 2147483648) mod 4294967296 - 2147483648"

definition newline :: char where
  "newline = CHR 0x0A"

text \<open>
  \<open>std::getline(file, line)\<close> on the bytes still unread: at end of file it extracts
  nothing and fails; otherwise the line is everything up to the next newline, and the
  newline itself is consumed.
\<close>

fun getline :: "string \<Rightarrow> (string \<times> string) option" where
  "getline [] = None"
| "getline (c # cs) =
     Some (takeWhile (\<lambda>x. x \<noteq> newline) (c # cs),
           drop 1 (dropWhile (\<lambda>x. x \<noteq> newline) (c # cs)))"

text \<open>
  \<open>line.find(str)\<close>: the first position at which \<open>str\<close> occurs in \<open>line\<close>;
  \<open>None\<close> stands for \<open>std::string::npos\<close>.
\<close>

fun find_from :: "string \<Rightarrow> string \<Rightarrow> nat \<Rightarrow> nat option" where
  "find_from str [] pos = (if str = [] then Some pos else None)"
| "find_from str (c # cs) pos =
     (if prefix str (c # cs) then Some pos else find_from str cs (Suc pos))"

definition string_find :: "string \<Rightarrow> string \<Rightarrow> nat option" where
  "string_find line str = find_from str line 0"

lemma getline_shorter:
  "getline file = Some (line, rest) \<Longrightarrow> length rest < length file"
proof (cases "file")
  case Nil
  assume "getline file = Some (line, rest)"
  with Nil show ?thesis by simp
next
  case (Cons c cs)
  assume "getline file = Some (line, rest)"
  with Cons have "rest = drop 1 (dropWhile (\<lambda>x. x \<noteq> newline) (c # cs))" by simp
  moreover have "length (dropWhile (\<lambda>x. x \<noteq> newline) (c # cs)) \<le> length (c # cs)"
    by (rule length_dropWhile_le)
  ultimately show ?thesis using Cons by simp
qed

text \<open>
  The loop of lines 81 to 86, with its two local variables as arguments:
  \<open>lineNumber\<close> is incremented (as an \<open>int\<close>) before the test, and a matching line
  appends the incremented number to \<open>matchingLines\<close>.
\<close>

function scan_lines :: "string \<Rightarrow> string \<Rightarrow> int \<Rightarrow> int list \<Rightarrow> int list" where
  "scan_lines searchTerm file lineNumber matchingLines =
     (case getline file of
        None \<Rightarrow> matchingLines
      | Some (line, rest) \<Rightarrow>
          scan_lines searchTerm rest (int32 (lineNumber + 1))
            (if string_find line searchTerm \<noteq> None
             then matchingLines @ [int32 (lineNumber + 1)] else matchingLines))"
  by pat_completeness auto
termination
  by (relation "measure (\<lambda>(searchTerm, file, lineNumber, matchingLines). length file)")
     (auto dest: getline_shorter)

declare scan_lines.simps [simp del]

text \<open>
  \<open>searchInFile\<close>. Its argument \<open>file\<close> is what opening \<open>filepath\<close> gives: \<open>None\<close>
  when the stream does not open, otherwise the bytes that the stream delivers (the loop
  ends at the first read that fails, whether at the end of the file or before). The
  shared vector \<open>results\<close> is passed in and returned; the \<open>push_back\<close> happens under
  \<open>results_mutex\<close>, so it is one atomic update.
\<close>

type_synonym result = "string \<times> int list"

definition searchInFile ::
  "result list \<Rightarrow> string \<Rightarrow> string option \<Rightarrow> string \<Rightarrow> bool \<times> result list" where
  "searchInFile results filepath file searchTerm =
     (case file of
        None \<Rightarrow> (False, results)
      | Some content \<Rightarrow>
          (let matchingLines = scan_lines searchTerm content 0 []
           in if matchingLines \<noteq> []
              then (True, results @ [(filepath, matchingLines)])
              else (False, results)))"

text \<open>
  The specification speaks of the lines of a file and of a term being a literal substring
  of a line. Both are stated here without the loop: the lines are the pieces that
  successive reads deliver, \<open>sublist\<close> is the substring relation, and the numbers of
  the matching lines are natural numbers counted from 1, of any size.
\<close>

function file_lines :: "string \<Rightarrow> string list" where
  "file_lines file =
     (case getline file of None \<Rightarrow> [] | Some (line, rest) \<Rightarrow> line # file_lines rest)"
  by pat_completeness auto
termination
  by (relation "measure length") (auto dest: getline_shorter)

declare file_lines.simps [simp del]

definition line_matches :: "string \<Rightarrow> string \<Rightarrow> bool" where
  "line_matches searchTerm line = sublist searchTerm line"

definition matching_numbers :: "string \<Rightarrow> string list \<Rightarrow> int list" where
  "matching_numbers searchTerm ls =
     map (\<lambda>i. int i + 1) (filter (\<lambda>i. line_matches searchTerm (ls ! i)) [0..<length ls])"

section \<open>The file system and the directory walk\<close>

text \<open>
  What a path names: a regular file, a directory with its named entries, a directory
  that cannot be listed, or anything else (a socket, a dangling link, \<dots>). A symbolic
  link to a regular file counts as the regular file, as \<open>fs::is_regular_file\<close> and
  \<open>std::ifstream\<close> both follow it. A regular file comes with what opening it gives when
  its task runs: \<open>None\<close> when the stream does not open, otherwise the bytes delivered.
\<close>

datatype node =
    RegularFile "string option"
  | Directory "(string \<times> node) list"
  | DeniedDirectory
  | Other

text \<open>
  What the file system answers for a path: nothing is there, or a node is there, or the
  path cannot be resolved at all (a name that is too long, a loop of symbolic links, a
  directory on the way that may not be searched). In the last case nothing is named
  either, and \<open>fs::exists\<close> throws \<open>fs::filesystem_error\<close> instead of returning false.
\<close>

datatype status = NotFound | Found node | Unresolvable

type_synonym entry = "string \<times> node"

definition path_join :: "string \<Rightarrow> string \<Rightarrow> string" where
  "path_join dir name =
     (if dir = [] \<or> last dir = CHR ''/'' then dir @ name else dir @ ''/'' @ name)"

text \<open>
  \<open>fs::recursive_directory_iterator\<close>: the entries in the order the iteration visits
  them, and whether the iteration ended by throwing \<open>fs::filesystem_error\<close>. An entry
  is visited before the iterator descends into it, so a directory that cannot be listed
  is itself visited and the error comes with the next increment.
\<close>

fun walk_entries :: "string \<Rightarrow> (string \<times> node) list \<Rightarrow> entry list \<times> bool"
  and walk_node :: "string \<Rightarrow> node \<Rightarrow> entry list \<times> bool" where
  "walk_entries dir [] = ([], False)"
| "walk_entries dir ((name, n) # es) =
     (let p = path_join dir name; (sub, failed) = walk_node p n
      in if failed then ((p, n) # sub, True)
         else (let (rest, failed') = walk_entries dir es
               in ((p, n) # sub @ rest, failed')))"
| "walk_node p (Directory es) = walk_entries p es"
| "walk_node p DeniedDirectory = ([], True)"
| "walk_node p (RegularFile f) = ([], False)"
| "walk_node p Other = ([], False)"

text \<open>Constructing the iterator on something that is not a listable directory throws.\<close>

fun recursive_directory_iterator :: "string \<Rightarrow> node \<Rightarrow> entry list \<times> bool" where
  "recursive_directory_iterator rootPath (Directory es) = walk_entries rootPath es"
| "recursive_directory_iterator rootPath n = ([], True)"

text \<open>The whole loop over a root path, in a given state of the file system.\<close>

definition traversal :: "(string \<Rightarrow> status) \<Rightarrow> string \<Rightarrow> entry list \<times> bool" where
  "traversal fs rootPath =
     (case fs rootPath of
        Found n \<Rightarrow> recursive_directory_iterator rootPath n
      | NotFound \<Rightarrow> ([], True)
      | Unresolvable \<Rightarrow> ([], True))"

fun is_regular_file :: "entry \<Rightarrow> bool" where
  "is_regular_file (p, RegularFile f) = True"
| "is_regular_file (p, n) = False"

text \<open>What \<open>std::ifstream file(filepath)\<close> gives for an entry.\<close>

fun open_file :: "entry \<Rightarrow> string option" where
  "open_file (p, RegularFile f) = f"
| "open_file (p, n) = None"

text \<open>
  The specification speaks of the files under a directory tree. That is a relation on
  the tree itself, stated without the iterator: \<open>under dir es p n\<close> holds when the
  directory at path \<open>dir\<close> with the entries \<open>es\<close> has the node \<open>n\<close> at path \<open>p\<close>, at any
  depth.
\<close>

inductive under :: "string \<Rightarrow> (string \<times> node) list \<Rightarrow> string \<Rightarrow> node \<Rightarrow> bool" where
  under_here: "(name, n) \<in> set es \<Longrightarrow> under dir es (path_join dir name) n"
| under_below:
    "(name, Directory sub) \<in> set es \<Longrightarrow> under (path_join dir name) sub p n \<Longrightarrow>
     under dir es p n"

section \<open>Output\<close>

text \<open>
  The output is a sequence of events, one for each line written. The elapsed time of
  line 134 and the text of \<open>e.what()\<close> of line 174 are not modelled. The progress line
  carries the two counters as the task reads them; its percentage divides by the second
  one, and \<open>DivisionByZero\<close> records that this divisor was 0. A line number is printed
  as the \<open>int\<close> it is, the size of the result vector as the \<open>size_t\<close> it is.
\<close>

datatype event =
    Cout string
  | Cerr string
  | Progress int int
  | DivisionByZero
  | Completed
  | FilesystemError

definition digit :: "nat \<Rightarrow> char" where
  "digit n = ''0123456789'' ! n"

fun digits :: "nat \<Rightarrow> string" where
  "digits n = (if n < 10 then [digit n] else digits (n div 10) @ [digit (n mod 10)])"

declare digits.simps [simp del]

definition to_string :: "int \<Rightarrow> string" where
  "to_string i = (if i < 0 then ''-'' @ digits (nat (- i)) else digits (nat i))"

fun comma_joined :: "int list \<Rightarrow> string" where
  "comma_joined [] = []"
| "comma_joined [x] = to_string x"
| "comma_joined (x # y # ys) = to_string x @ '', '' @ comma_joined (y # ys)"

definition progress :: "int \<Rightarrow> int \<Rightarrow> event" where
  "progress processed total_count =
     (if total_count = 0 then DivisionByZero else Progress processed total_count)"

fun result_lines :: "result \<Rightarrow> event list" where
  "result_lines (path, ls) =
     [Cout (''File: '' @ path), Cout (''  Matching lines: '' @ comma_joined ls)]"

definition report :: "result list \<Rightarrow> event list" where
  "report results =
     [Completed,
      Cout (''Found '' @ digits (length results) @ '' files containing the search term.'')]
     @ (if results \<noteq> [] then Cout ''Results:'' # concat (map result_lines results) else [])"

section \<open>The program as a system of threads\<close>

text \<open>
  The main thread runs \<open>main\<close> and \<open>SearchEngine::search\<close>; each worker runs the loop
  of lines 29 to 42. A task is the closure of line 113: it holds the directory entry
  (the search term is the same for all tasks) and performs three actions on the shared
  state: the scan with its \<open>push_back\<close> under the mutex, the atomic increment of
  \<open>files_processed\<close>, and the progress line, for which it loads both counters.

  Each step below is atomic. Reading a file touches no shared state, so a scan and its
  \<open>push_back\<close> are one step; the loads and the output of a progress line are taken
  as one step, and so is the report of the main thread, so that a progress line of a
  worker that is still printing comes before or after the report and not inside it.
\<close>

type_synonym task = entry

datatype task_pc = Scan | Incr | Print

datatype worker = Waiting | Running task task_pc | Exited

text \<open>
  Where the main thread is. \<open>AtDispatch es failed\<close>: inside the second loop, with the
  entries that the iterator has still to deliver and whether it will then throw.
  \<open>AtThrown\<close> and \<open>AtUnwind\<close>: the second iterator has thrown; the exception leaves
  \<open>search\<close>, which runs the destructor of the pool, and is caught in \<open>main\<close>.
\<close>

datatype driver_pc =
    AtMain
  | AtCount
  | AtPool
  | AtDispatch "entry list" bool
  | AtDrain
  | AtReport
  | AtStop
  | AtJoin
  | AtThrown
  | AtUnwind
  | AtExit int

text \<open>
  What the program is given: its arguments, the file system as \<open>main\<close> and the counting
  pass find it, the file system as the second pass finds it (it may have been modified
  in between), and the value of \<open>std::thread::hardware_concurrency()\<close>.
\<close>

record config =
  argv :: "string list"
  filesystem :: "string \<Rightarrow> status"
  later :: "string \<Rightarrow> status"
  hardware_concurrency :: nat

record engine =
  tasks :: "task list"
  stop :: bool
  workers :: "worker list"
  results :: "result list"
  files_processed :: int
  total_files :: int
  out :: "event list"
  driver :: driver_pc

definition initial :: engine where
  "initial = \<lparr>tasks = [], stop = False, workers = [], results = [],
     files_processed = 0, total_files = 0, out = [], driver = AtMain\<rparr>"

definition directoryPath :: "config \<Rightarrow> string" where
  "directoryPath c = argv c ! 1"

definition searchTerm :: "config \<Rightarrow> string" where
  "searchTerm c = argv c ! 2"

definition usage :: "config \<Rightarrow> event" where
  "usage c = Cout (''Usage: '' @ (case argv c of [] \<Rightarrow> [] | a # _ \<Rightarrow> a)
                    @ '' <directory_path> <search_term>'')"

definition searching :: "config \<Rightarrow> event" where
  "searching c = Cout (''Searching for '' @ [CHR 0x27] @ searchTerm c @ [CHR 0x27]
                        @ '' in '' @ directoryPath c)"

text \<open>The two loops over the root: the counting pass and the dispatching pass.\<close>

definition counting_pass :: "config \<Rightarrow> entry list \<times> bool" where
  "counting_pass c = traversal (filesystem c) (directoryPath c)"

definition dispatch_pass :: "config \<Rightarrow> entry list \<times> bool" where
  "dispatch_pass c = traversal (later c) (directoryPath c)"

text \<open>
  One step of the main thread; \<open>None\<close> when it cannot move (it has returned, or it is
  held in the polling loop of line 127, or in a \<open>join\<close>).
  \<^item> \<open>AtMain\<close>: lines 154 to 168. \<open>fs::exists\<close> returns false, returns true, or throws
    to the handler of line 173.
  \<^item> \<open>AtCount\<close>: the counting pass, lines 99 to 103, each regular file an increment of
    \<open>total_files\<close>, all of them taken as one step; no other thread exists yet. An
    exception leaves \<open>search\<close> and is caught at line 173.
  \<^item> \<open>AtPool\<close>: line 106, and the second iterator is constructed.
  \<^item> \<open>AtDispatch\<close>: one turn of the loop of lines 111 to 124, or its end: the loop is
    left normally, or by the exception of the iterator.
  \<^item> \<open>AtDrain\<close>: the loop of lines 127 to 129 is left when its condition is false.
  \<^item> \<open>AtReport\<close>: lines 134 to 149.
  \<^item> \<open>AtStop\<close>, \<open>AtJoin\<close>: the destructor of the pool, lines 56 to 62, run when \<open>search\<close>
    returns: the flag is set, and every worker is joined. Then \<open>main\<close> returns 0.
  \<^item> \<open>AtThrown\<close>, \<open>AtUnwind\<close>: the same destructor, run when the exception leaves
    \<open>search\<close>. Then the handler of line 173 prints and \<open>main\<close> returns 1.
\<close>

definition driver_step :: "config \<Rightarrow> engine \<Rightarrow> engine option" where
  "driver_step c s =
     (case driver s of
        AtMain \<Rightarrow>
          if length (argv c) < 3
          then Some (s\<lparr>out := out s @ [usage c], driver := AtExit 1\<rparr>)
          else (case filesystem c (directoryPath c) of
                  NotFound \<Rightarrow> Some (s\<lparr>out := out s @ [Cerr ''Directory does not exist.''],
                                       driver := AtExit 1\<rparr>)
                | Unresolvable \<Rightarrow> Some (s\<lparr>out := out s @ [FilesystemError],
                                           driver := AtExit 1\<rparr>)
                | Found n \<Rightarrow> Some (s\<lparr>out := out s @ [searching c], driver := AtCount\<rparr>))
      | AtCount \<Rightarrow>
          (let (es, failed) = counting_pass c;
               s' = s\<lparr>total_files :=
                        int32 (total_files s + int (length (filter is_regular_file es)))\<rparr>
           in if failed
              then Some (s'\<lparr>out := out s @ [FilesystemError], driver := AtExit 1\<rparr>)
              else Some (s'\<lparr>driver := AtPool\<rparr>))
      | AtPool \<Rightarrow>
          Some (s\<lparr>workers := replicate (hardware_concurrency c) Waiting,
                   driver := AtDispatch (fst (dispatch_pass c)) (snd (dispatch_pass c))\<rparr>)
      | AtDispatch [] failed \<Rightarrow>
          if failed then Some (s\<lparr>driver := AtThrown\<rparr>) else Some (s\<lparr>driver := AtDrain\<rparr>)
      | AtDispatch (e # es) failed \<Rightarrow>
          if is_regular_file e
          then Some (s\<lparr>tasks := tasks s @ [e], driver := AtDispatch es failed\<rparr>)
          else Some (s\<lparr>driver := AtDispatch es failed\<rparr>)
      | AtDrain \<Rightarrow>
          if files_processed s < total_files s then None
          else Some (s\<lparr>driver := AtReport\<rparr>)
      | AtReport \<Rightarrow> Some (s\<lparr>out := out s @ report (results s), driver := AtStop\<rparr>)
      | AtStop \<Rightarrow> Some (s\<lparr>stop := True, driver := AtJoin\<rparr>)
      | AtJoin \<Rightarrow>
          if list_all (\<lambda>w. w = Exited) (workers s) then Some (s\<lparr>driver := AtExit 0\<rparr>)
          else None
      | AtThrown \<Rightarrow> Some (s\<lparr>stop := True, driver := AtUnwind\<rparr>)
      | AtUnwind \<Rightarrow>
          if list_all (\<lambda>w. w = Exited) (workers s)
          then Some (s\<lparr>out := out s @ [FilesystemError], driver := AtExit 1\<rparr>)
          else None
      | AtExit code \<Rightarrow> None)"

text \<open>
  One step of worker \<open>i\<close>. A waiting worker is inside \<open>condition.wait\<close> of line 33, which
  returns, holding the mutex, only when its predicate is true; the worker then either
  returns (line 37) or takes the task at the front of the queue (lines 38, 39). The
  queue and the flag change only under the mutex and each change is followed by a
  notification, so a waiting worker whose predicate has become true is able to move;
  the pool is modelled with its notifications further below.
\<close>

definition worker_step :: "config \<Rightarrow> nat \<Rightarrow> engine \<Rightarrow> engine option" where
  "worker_step c i s =
     (if length (workers s) \<le> i then None
      else case workers s ! i of
        Waiting \<Rightarrow>
          if stop s \<or> tasks s \<noteq> []
          then (case tasks s of
                  [] \<Rightarrow> Some (s\<lparr>workers := (workers s)[i := Exited]\<rparr>)
                | t # ts \<Rightarrow> Some (s\<lparr>tasks := ts, workers := (workers s)[i := Running t Scan]\<rparr>))
          else None
      | Running t Scan \<Rightarrow>
          Some (s\<lparr>results := snd (searchInFile (results s) (fst t) (open_file t) (searchTerm c)),
                   workers := (workers s)[i := Running t Incr]\<rparr>)
      | Running t Incr \<Rightarrow>
          Some (s\<lparr>files_processed := int32 (files_processed s + 1),
                   workers := (workers s)[i := Running t Print]\<rparr>)
      | Running t Print \<Rightarrow>
          Some (s\<lparr>out := out s @ [progress (files_processed s) (total_files s)],
                   workers := (workers s)[i := Waiting]\<rparr>)
      | Exited \<Rightarrow> None)"

datatype thread = Driver | Worker nat

fun step :: "config \<Rightarrow> thread \<Rightarrow> engine \<Rightarrow> engine option" where
  "step c Driver s = driver_step c s"
| "step c (Worker i) s = worker_step c i s"

text \<open>A schedule is the order in which the threads move.\<close>

fun run :: "config \<Rightarrow> thread list \<Rightarrow> engine \<Rightarrow> engine option" where
  "run c [] s = Some s"
| "run c (t # ts) s = (case step c t s of None \<Rightarrow> None | Some s' \<Rightarrow> run c ts s')"

inductive reachable :: "config \<Rightarrow> engine \<Rightarrow> bool" for c :: config where
  reachable_initial: "reachable c initial"
| reachable_step: "reachable c s \<Longrightarrow> step c t s = Some s' \<Longrightarrow> reachable c s'"

text \<open>
  \<open>inevitable c P s\<close>: from \<open>s\<close>, whatever the schedule, the system comes to a state
  with \<open>P\<close>: either \<open>P\<close> holds now, or some thread can move and every move leads to a
  state from which \<open>P\<close> is inevitable.
\<close>

inductive inevitable :: "config \<Rightarrow> (engine \<Rightarrow> bool) \<Rightarrow> engine \<Rightarrow> bool"
  for c :: config and P :: "engine \<Rightarrow> bool" where
  inevitable_now: "P s \<Longrightarrow> inevitable c P s"
| inevitable_later:
    "\<exists>t s'. step c t s = Some s' \<Longrightarrow>
     (\<And>t s'. step c t s = Some s' \<Longrightarrow> inevitable c P s') \<Longrightarrow> inevitable c P s"

section \<open>What a run owes: the files, the expected results, the outstanding tasks\<close>

text \<open>
  The regular files that the counting pass visits, and those that the dispatching pass
  visits and turns into tasks, each in the order of its iteration.
\<close>

definition counted_files :: "config \<Rightarrow> entry list" where
  "counted_files c = filter is_regular_file (fst (counting_pass c))"

definition regular_files :: "config \<Rightarrow> entry list" where
  "regular_files c = filter is_regular_file (fst (dispatch_pass c))"

text \<open>What the scan of one file appends to the results: one pair, or nothing.\<close>

definition result_of :: "string \<Rightarrow> task \<Rightarrow> result list" where
  "result_of str t = snd (searchInFile [] (fst t) (open_file t) str)"

definition expected :: "config \<Rightarrow> result list" where
  "expected c = concat (map (result_of (searchTerm c)) (regular_files c))"

text \<open>
  The tasks that the main thread has still to enqueue, and the task that a worker holds
  at each of the three points of its execution.
\<close>

fun pending :: "config \<Rightarrow> driver_pc \<Rightarrow> task list" where
  "pending c AtMain = regular_files c"
| "pending c AtCount = regular_files c"
| "pending c AtPool = regular_files c"
| "pending c (AtDispatch es failed) = filter is_regular_file es"
| "pending c pc = []"

fun scanning :: "worker \<Rightarrow> task list" where
  "scanning (Running t Scan) = [t]"
| "scanning w = []"

fun counting :: "worker \<Rightarrow> task list" where
  "counting (Running t Incr) = [t]"
| "counting w = []"

fun printing :: "worker \<Rightarrow> task list" where
  "printing (Running t Print) = [t]"
| "printing w = []"

definition unscanned :: "config \<Rightarrow> engine \<Rightarrow> task list" where
  "unscanned c s = pending c (driver s) @ tasks s @ concat (map scanning (workers s))"

definition uncounted :: "config \<Rightarrow> engine \<Rightarrow> task list" where
  "uncounted c s = unscanned c s @ concat (map counting (workers s))"

text \<open>
  The search proper has begun: the counting pass is over and did not throw. \<open>main\<close> has
  then returned either before the pool existed, with the flag unset, or after its
  destructor, with the flag set.
\<close>

fun begun_at :: "driver_pc \<Rightarrow> bool \<Rightarrow> bool" where
  "begun_at AtMain flag = False"
| "begun_at AtCount flag = False"
| "begun_at (AtExit code) flag = flag"
| "begun_at pc flag = True"

definition begun :: "engine \<Rightarrow> bool" where
  "begun s = begun_at (driver s) (stop s)"

text \<open>The main thread has left the polling loop: the results are read from here on.\<close>

fun drained :: "driver_pc \<Rightarrow> bool" where
  "drained AtReport = True"
| "drained AtStop = True"
| "drained AtJoin = True"
| "drained (AtExit code) = (code = 0)"
| "drained pc = False"

text \<open>The main thread has printed the report.\<close>

definition reported :: "driver_pc \<Rightarrow> bool" where
  "reported pc \<longleftrightarrow> pc = AtStop \<or> pc = AtJoin \<or> pc = AtExit 0"

text \<open>The results that the scans of a list of tasks will append, as a multiset.\<close>

definition owed :: "string \<Rightarrow> task list \<Rightarrow> result multiset" where
  "owed str ts = mset (concat (map (result_of str) ts))"

text \<open>
  The files that the specification expects to be reported: the paths of the regular
  files under the root directory that open and have the term as a literal substring of
  one of their lines.
\<close>

definition matching_files :: "config \<Rightarrow> string set" where
  "matching_files c =
     {p. \<exists>ds content. filesystem c (directoryPath c) = Found (Directory ds)
           \<and> under (directoryPath c) ds p (RegularFile (Some content))
           \<and> (\<exists>l \<in> set (file_lines content). line_matches (searchTerm c) l)}"


text \<open>The events that a progress line gives.\<close>

fun is_progress :: "event \<Rightarrow> bool" where
  "is_progress (Progress p t) = True"
| "is_progress DivisionByZero = True"
| "is_progress e = False"

section \<open>Invariants of the run\<close>

text \<open>
  Before the search proper nothing has happened to the shared state. The search proper
  begins only with both arguments given, an existing root and a counting pass that did
  not throw, and from then on \<open>total_files\<close> is what the counting pass left in it; when
  \<open>main\<close> returns earlier it is 0 or what the counting pass had counted when it threw.
  The flag is set only by the destructor.
\<close>

definition inv_early :: "config \<Rightarrow> engine \<Rightarrow> bool" where
  "inv_early c s \<longleftrightarrow>
     (\<not> begun s \<or> driver s = AtPool \<longrightarrow>
        tasks s = [] \<and> workers s = [] \<and> results s = [] \<and> files_processed s = 0
        \<and> \<not> stop s)
     \<and> (driver s = AtMain \<or> driver s = AtCount \<longrightarrow> total_files s = 0)
     \<and> ((\<exists>code. driver s = AtExit code) \<and> \<not> stop s \<longrightarrow>
          total_files s = 0 \<or> total_files s = int32 (int (length (counted_files c))))
     \<and> (begun s \<longrightarrow>
          total_files s = int32 (int (length (counted_files c))) \<and> \<not> snd (counting_pass c))
     \<and> (begun s \<or> driver s = AtCount \<longrightarrow>
          3 \<le> length (argv c) \<and> (\<exists>n. filesystem c (directoryPath c) = Found n))
     \<and> (stop s \<longrightarrow>
          driver s = AtJoin \<or> driver s = AtUnwind \<or> (\<exists>code. driver s = AtExit code))
     \<and> (driver s = AtJoin \<or> driver s = AtUnwind \<or> driver s = AtExit 0 \<longrightarrow> stop s)"

text \<open>
  The counters: \<open>files_processed\<close> is, as an \<open>int\<close>, the number of tasks that have
  made their increment, which are the tasks that are no longer pending, queued or held
  by a worker before its increment; and a task that prints has made its increment.
\<close>

definition inv_counts :: "config \<Rightarrow> engine \<Rightarrow> bool" where
  "inv_counts c s \<longleftrightarrow>
     (begun s \<longrightarrow>
        files_processed s
          = int32 (int (length (regular_files c)) - int (length (uncounted c s)))
        \<and> int (length (uncounted c s)) + int (length (concat (map printing (workers s))))
            \<le> int (length (regular_files c)))"

text \<open>
  The results: together with what the tasks not yet scanned will append, they are what
  the regular files give.
\<close>

definition inv_results :: "config \<Rightarrow> engine \<Rightarrow> bool" where
  "inv_results c s \<longleftrightarrow>
     (begun s \<longrightarrow>
        mset (results s) + owed (searchTerm c) (unscanned c s) = mset (expected c))"

text \<open>
  The pool: a worker has returned only with the flag set and the queue empty, the pool
  has as many workers as it was created with, \<open>main\<close> returns after the destructor only
  when every worker has returned, and without a worker there is no result and no
  increment.
\<close>

definition inv_pool :: "config \<Rightarrow> engine \<Rightarrow> bool" where
  "inv_pool c s \<longleftrightarrow>
     (Exited \<in> set (workers s) \<longrightarrow> stop s \<and> tasks s = [])
     \<and> (begun s \<and> driver s \<noteq> AtPool \<longrightarrow> length (workers s) = hardware_concurrency c)
     \<and> ((\<exists>code. driver s = AtExit code) \<and> stop s \<longrightarrow>
          list_all (\<lambda>w. w = Exited) (workers s))
     \<and> (workers s = [] \<longrightarrow> results s = [] \<and> files_processed s = 0)"

text \<open>
  How \<open>main\<close> returns. A run completes when both arguments are given and neither pass
  throws (so that the root is a directory that can be listed); \<open>main\<close> returns 0 when
  the run completes and 1 otherwise, and the main thread is past the second loop only
  when that loop did not throw.
\<close>

definition completes :: "config \<Rightarrow> bool" where
  "completes c \<longleftrightarrow>
     3 \<le> length (argv c) \<and> \<not> snd (counting_pass c) \<and> \<not> snd (dispatch_pass c)"

fun exit_ok :: "config \<Rightarrow> driver_pc \<Rightarrow> bool" where
  "exit_ok c (AtDispatch es failed) = (failed = snd (dispatch_pass c))"
| "exit_ok c AtDrain = (\<not> snd (dispatch_pass c))"
| "exit_ok c AtReport = (\<not> snd (dispatch_pass c))"
| "exit_ok c AtStop = (\<not> snd (dispatch_pass c))"
| "exit_ok c AtJoin = (\<not> snd (dispatch_pass c))"
| "exit_ok c AtThrown = snd (dispatch_pass c)"
| "exit_ok c AtUnwind = snd (dispatch_pass c)"
| "exit_ok c (AtExit code) = (if completes c then code = 0 else code = 1)"
| "exit_ok c pc = True"

definition inv_exit :: "config \<Rightarrow> engine \<Rightarrow> bool" where
  "inv_exit c s \<longleftrightarrow> exit_ok c (driver s)"

text \<open>
  The remaining invariants are about runs on a tree that is the same in both passes
  and has fewer than \<open>2^31\<close> regular files, so that the counters count.
\<close>

definition steady :: "config \<Rightarrow> bool" where
  "steady c \<longleftrightarrow> later c = filesystem c \<and> length (regular_files c) < 2147483648"

text \<open>When the main thread has left the polling loop the two counters are equal.\<close>

definition inv_drained :: "config \<Rightarrow> engine \<Rightarrow> bool" where
  "inv_drained c s \<longleftrightarrow> (drained (driver s) \<longrightarrow> files_processed s = total_files s)"

text \<open>
  Every progress line was computed with a divisor other than 0, and there is one only
  if the tree has a regular file.
\<close>

definition inv_out :: "config \<Rightarrow> engine \<Rightarrow> bool" where
  "inv_out c s \<longleftrightarrow>
     (\<forall>e \<in> set (out s). is_progress e \<longrightarrow> e \<noteq> DivisionByZero \<and> regular_files c \<noteq> [])"

text \<open>The report that was printed is the report of the results as they are now.\<close>

definition inv_report :: "config \<Rightarrow> engine \<Rightarrow> bool" where
  "inv_report c s \<longleftrightarrow>
     (reported (driver s) \<longrightarrow> (\<exists>pre post. out s = pre @ report (results s) @ post))"

section \<open>Example invocations\<close>

text \<open>
  \<open>search d foo\<close> on a machine with two hardware threads, where \<open>d\<close> holds a file
  \<open>a\<close> with the term on its first line, a file \<open>b\<close> that cannot be opened, something
  that is not a regular file, and a directory \<open>sub\<close> with a file \<open>c\<close> whose second
  line has the term twice. Nothing modifies the tree.
\<close>

definition demo_tree :: node where
  "demo_tree = Directory
     [(''a'', RegularFile (Some (''x foo'' @ [newline] @ ''y''))),
      (''b'', RegularFile None),
      (''o'', Other),
      (''sub'', Directory [(''c'', RegularFile (Some (''z'' @ [newline] @ ''foofoo'' @ [newline])))])]"

definition only_d :: "node \<Rightarrow> string \<Rightarrow> status" where
  "only_d n p = (if p = ''d'' then Found n else NotFound)"

definition demo :: config where
  "demo = \<lparr>argv = [''search'', ''d'', ''foo''], filesystem = only_d demo_tree,
           later = only_d demo_tree, hardware_concurrency = 2\<rparr>"

text \<open>The main thread up to the polling loop: five entries are visited, three enqueued.\<close>

definition demo_dispatch :: "thread list" where
  "demo_dispatch = [Driver, Driver, Driver, Driver, Driver, Driver, Driver, Driver, Driver]"

text \<open>Worker 0 takes \<open>a\<close>, worker 1 takes \<open>b\<close> and then \<open>c\<close>; worker 0 scans first.\<close>

definition demo_schedule :: "thread list" where
  "demo_schedule = demo_dispatch
     @ [Worker 0, Worker 1, Worker 0, Worker 1, Worker 0, Worker 0, Worker 1, Worker 1,
        Worker 1, Worker 1, Worker 1, Worker 1]
     @ [Driver, Driver, Driver, Worker 0, Worker 1, Driver]"

text \<open>The same, but worker 0 is slow and scans \<open>a\<close> only after worker 1 has scanned \<open>c\<close>.\<close>

definition demo_schedule' :: "thread list" where
  "demo_schedule' = demo_dispatch
     @ [Worker 0, Worker 1, Worker 1, Worker 1, Worker 1, Worker 1, Worker 1, Worker 1,
        Worker 1, Worker 0, Worker 0, Worker 0]
     @ [Driver, Driver, Driver, Worker 0, Worker 1, Driver]"

text \<open>A state on the way: worker 0 is about to print, worker 1 about to count.\<close>

definition demo_midway :: "thread list" where
  "demo_midway = demo_dispatch @ [Worker 0, Worker 1, Worker 0, Worker 1, Worker 0]"

definition demo_mid :: engine where
  "demo_mid =
     \<lparr>tasks = [(''d/sub/c'', RegularFile (Some (''z'' @ [newline] @ ''foofoo'' @ [newline])))],
      stop = False,
      workers = [Running (''d/a'', RegularFile (Some (''x foo'' @ [newline] @ ''y''))) Print,
                 Running (''d/b'', RegularFile None) Incr],
      results = [(''d/a'', [1])], files_processed = 1, total_files = 3,
      out = [searching demo], driver = AtDrain\<rparr>"

definition demo_end :: engine where
  "demo_end =
     \<lparr>tasks = [], stop = True, workers = [Exited, Exited],
      results = [(''d/a'', [1]), (''d/sub/c'', [2])], files_processed = 3, total_files = 3,
      out = [searching demo, Progress 1 3, Progress 2 3, Progress 3 3, Completed,
             Cout ''Found 2 files containing the search term.'', Cout ''Results:'',
             Cout ''File: d/a'', Cout ''  Matching lines: 1'',
             Cout ''File: d/sub/c'', Cout ''  Matching lines: 2''],
      driver = AtExit 0\<rparr>"

definition demo_end' :: engine where
  "demo_end' =
     \<lparr>tasks = [], stop = True, workers = [Exited, Exited],
      results = [(''d/sub/c'', [2]), (''d/a'', [1])], files_processed = 3, total_files = 3,
      out = [searching demo, Progress 1 3, Progress 2 3, Progress 3 3, Completed,
             Cout ''Found 2 files containing the search term.'', Cout ''Results:'',
             Cout ''File: d/sub/c'', Cout ''  Matching lines: 2'',
             Cout ''File: d/a'', Cout ''  Matching lines: 1''],
      driver = AtExit 0\<rparr>"

text \<open>
  The same machine and file system, but no such directory (\<open>search e foo\<close>); a path
  that cannot be resolved; and a directory without regular files on a machine that
  reports no hardware threads.
\<close>

definition demo_missing :: config where
  "demo_missing = demo\<lparr>argv := [''search'', ''e'', ''foo'']\<rparr>"

definition demo_unresolvable :: config where
  "demo_unresolvable =
     \<lparr>argv = [''search'', ''loop/d'', ''foo''],
      filesystem = (\<lambda>p. if p = ''loop/d'' then Unresolvable else NotFound),
      later = (\<lambda>p. if p = ''loop/d'' then Unresolvable else NotFound),
      hardware_concurrency = 2\<rparr>"

definition demo_empty :: config where
  "demo_empty = \<lparr>argv = [''search'', ''d'', ''foo''],
     filesystem = only_d (Directory [(''o'', Other), (''sub'', Directory [])]),
     later = only_d (Directory [(''o'', Other), (''sub'', Directory [])]),
     hardware_concurrency = 0\<rparr>"

text \<open>
  A directory whose only entry is a directory that cannot be listed, and the same with
  a file beside it that has the term.
\<close>

definition demo_denied :: config where
  "demo_denied = \<lparr>argv = [''search'', ''d'', ''foo''],
     filesystem = only_d (Directory [(''sub'', DeniedDirectory)]),
     later = only_d (Directory [(''sub'', DeniedDirectory)]),
     hardware_concurrency = 2\<rparr>"

definition demo_beside :: config where
  "demo_beside = \<lparr>argv = [''search'', ''d'', ''foo''],
     filesystem = only_d (Directory [(''a'', RegularFile (Some ''foo'')), (''sub'', DeniedDirectory)]),
     later = only_d (Directory [(''a'', RegularFile (Some ''foo'')), (''sub'', DeniedDirectory)]),
     hardware_concurrency = 2\<rparr>"

text \<open>
  A directory that is empty during the counting pass and has a file when the second
  pass runs, on a machine with one hardware thread: the file is dispatched, and its
  task scans, counts and prints.
\<close>

definition demo_grown :: config where
  "demo_grown = \<lparr>argv = [''search'', ''d'', ''foo''],
     filesystem = only_d (Directory []),
     later = only_d (Directory [(''a'', RegularFile (Some ''foo''))]),
     hardware_concurrency = 1\<rparr>"

definition demo_grown_schedule :: "thread list" where
  "demo_grown_schedule =
     [Driver, Driver, Driver, Driver, Worker 0, Worker 0, Worker 0, Worker 0]"

text \<open>The tree of the first example on a machine that reports no hardware threads.\<close>

definition demo_no_worker :: config where
  "demo_no_worker = demo\<lparr>hardware_concurrency := 0\<rparr>"

definition demo_stuck :: engine where
  "demo_stuck =
     \<lparr>tasks = [(''d/a'', RegularFile (Some (''x foo'' @ [newline] @ ''y''))),
              (''d/b'', RegularFile None),
              (''d/sub/c'', RegularFile (Some (''z'' @ [newline] @ ''foofoo'' @ [newline])))],
      stop = False, workers = [], results = [], files_processed = 0, total_files = 3,
      out = [searching demo], driver = AtDrain\<rparr>"

text \<open>
  A directory with \<open>2^31\<close> files: a file \<open>a\<close> that has the term, and \<open>2^31 - 1\<close>
  files named \<open>0\<close>, \<open>1\<close>, \<open>2\<close>, \<dots> that do not open; on a machine with one hardware
  thread, and on one that reports none. And files of \<open>2^31\<close> lines: lines \<open>a\<close>, and
  empty lines.
\<close>

definition numbered :: "nat \<Rightarrow> (string \<times> node) list" where
  "numbered n = map (\<lambda>i. (digits i, RegularFile None)) [0..<n]"

definition many_files :: config where
  "many_files = \<lparr>argv = [''search'', ''d'', ''foo''],
     filesystem = only_d (Directory ((''a'', RegularFile (Some ''foo'')) # numbered 2147483647)),
     later = only_d (Directory ((''a'', RegularFile (Some ''foo'')) # numbered 2147483647)),
     hardware_concurrency = 1\<rparr>"


definition many_lines :: string where
  "many_lines = concat (replicate 2147483648 (''a'' @ [newline]))"

definition many_empty_lines :: string where
  "many_empty_lines = replicate 2147483648 newline"
section \<open>Termination of a run\<close>

text \<open>
  A bound on the number of steps that remain: the steps of the main thread from where
  it is, four steps for a task in the queue (it is taken, scans, counts, prints), and
  for a worker the rest of its task and one step to wait or return.
\<close>

fun weight_w :: "worker \<Rightarrow> nat" where
  "weight_w Waiting = 1"
| "weight_w (Running t Scan) = 4"
| "weight_w (Running t Incr) = 3"
| "weight_w (Running t Print) = 2"
| "weight_w Exited = 0"

fun weight_e :: "entry list \<Rightarrow> nat" where
  "weight_e es = length es + 4 * length (filter is_regular_file es)"

fun weight_d :: "config \<Rightarrow> driver_pc \<Rightarrow> nat" where
  "weight_d c (AtExit code) = 0"
| "weight_d c AtJoin = 1"
| "weight_d c AtStop = 2"
| "weight_d c AtReport = 3"
| "weight_d c AtDrain = 4"
| "weight_d c AtUnwind = 1"
| "weight_d c AtThrown = 2"
| "weight_d c (AtDispatch es failed) = 5 + weight_e es"
| "weight_d c AtPool = 6 + hardware_concurrency c + weight_e (fst (dispatch_pass c))"
| "weight_d c AtCount = 7 + hardware_concurrency c + weight_e (fst (dispatch_pass c))"
| "weight_d c AtMain = 8 + hardware_concurrency c + weight_e (fst (dispatch_pass c))"

definition remaining :: "config \<Rightarrow> engine \<Rightarrow> nat" where
  "remaining c s =
     weight_d c (driver s) + 4 * length (tasks s) + sum_list (map weight_w (workers s))"

text \<open>The main thread has returned from \<open>main\<close>.\<close>

definition exited :: "engine \<Rightarrow> bool" where
  "exited s \<longleftrightarrow> (\<exists>code. driver s = AtExit code)"

text \<open>The state in which \<open>main\<close> returns when the directory does not exist.\<close>

definition exit_missing :: engine where
  "exit_missing = initial\<lparr>out := [Cerr ''Directory does not exist.''], driver := AtExit 1\<rparr>"

text \<open>
  When every run ends: the two passes count the same number (as an \<open>int\<close>), so that the
  polling loop is left once every task has made its increment; and the pool has a worker
  to run the tasks, or the polling loop does not wait at all.
\<close>

definition live :: "config \<Rightarrow> bool" where
  "live c \<longleftrightarrow>
     int32 (int (length (counted_files c))) = int32 (int (length (regular_files c)))
     \<and> (0 < hardware_concurrency c \<or> int32 (int (length (counted_files c))) \<le> 0)"
section \<open>The thread pool on its own\<close>

text \<open>
  \<open>ThreadPool\<close> with tasks of any type, submitted by any number of client threads.
  Here the condition variable is modelled as it is used: a worker that finds its
  predicate false goes to sleep inside \<open>condition.wait\<close> and moves again only when a
  notification wakes it. (A spurious wake-up only makes the worker evaluate its
  predicate once more; it is left out.)

  A worker is at the top of its loop (\<open>Idle\<close>: it will take the mutex and evaluate the
  predicate of line 34), asleep in the wait, running a task it has taken, or it has
  returned.
\<close>

datatype 't pool_worker = Idle | Asleep | Busy 't | Gone

text \<open>The life of the pool: in use, then the three parts of the destructor.\<close>

datatype phase = Open | Stopping | Joining | Destroyed

text \<open>
  Besides the fields of the class the state has the number of clients that are inside
  \<open>enqueue\<close> between the \<open>emplace\<close> and the \<open>notify_one\<close>, and two histories that the
  program does not keep: the tasks submitted and the tasks run to completion, in order.
\<close>

record 't pool =
  pool_tasks :: "'t list"
  pool_stop :: bool
  pool_workers :: "'t pool_worker list"
  notifying :: nat
  phase :: phase
  submitted :: "'t list"
  executed :: "'t list"

definition ThreadPool :: "nat \<Rightarrow> 't pool" where
  "ThreadPool threads =
     \<lparr>pool_tasks = [], pool_stop = False, pool_workers = replicate threads Idle,
      notifying = 0, phase = Open, submitted = [], executed = []\<rparr>"

text \<open>
  The atomic actions.
  \<^item> \<open>Enqueue f\<close>: lines 49 and 50, by any client, while the pool is in use.
  \<^item> \<open>NotifyOne i\<close>, \<open>NotifyNobody\<close>: line 52 of a client that has enqueued; it wakes
    one of the sleeping workers, here worker \<open>i\<close>, or nobody when none sleeps.
  \<^item> \<open>Work i\<close>: worker \<open>i\<close> moves. At the top of the loop it evaluates the predicate
    under the mutex and sleeps, returns (line 37) or takes the front task (lines 38,
    39); with a task, it runs it (line 41) and is back at the top.
  \<^item> \<open>SetStop\<close>, \<open>NotifyAll\<close>, \<open>Join\<close>: lines 58, 60 and 61 to 62 of the destructor,
    which may begin only when no client is inside \<open>enqueue\<close>.
\<close>

datatype 't action =
    Enqueue 't
  | NotifyOne nat
  | NotifyNobody
  | Work nat
  | SetStop
  | NotifyAll
  | Join

fun wake :: "'t pool_worker \<Rightarrow> 't pool_worker" where
  "wake Asleep = Idle"
| "wake w = w"

fun pool_step :: "'t action \<Rightarrow> 't pool \<Rightarrow> 't pool option" where
  "pool_step (Enqueue f) s =
     (if phase s = Open
      then Some (s\<lparr>pool_tasks := pool_tasks s @ [f], notifying := notifying s + 1,
                   submitted := submitted s @ [f]\<rparr>)
      else None)"
| "pool_step (NotifyOne i) s =
     (if 0 < notifying s \<and> i < length (pool_workers s) \<and> pool_workers s ! i = Asleep
      then Some (s\<lparr>pool_workers := (pool_workers s)[i := Idle],
                   notifying := notifying s - 1\<rparr>)
      else None)"
| "pool_step NotifyNobody s =
     (if 0 < notifying s \<and> Asleep \<notin> set (pool_workers s)
      then Some (s\<lparr>notifying := notifying s - 1\<rparr>)
      else None)"
| "pool_step (Work i) s =
     (if length (pool_workers s) \<le> i then None
      else case pool_workers s ! i of
        Idle \<Rightarrow>
          if pool_stop s \<or> pool_tasks s \<noteq> []
          then (case pool_tasks s of
                  [] \<Rightarrow> Some (s\<lparr>pool_workers := (pool_workers s)[i := Gone]\<rparr>)
                | t # ts \<Rightarrow> Some (s\<lparr>pool_tasks := ts,
                                     pool_workers := (pool_workers s)[i := Busy t]\<rparr>))
          else Some (s\<lparr>pool_workers := (pool_workers s)[i := Asleep]\<rparr>)
      | Asleep \<Rightarrow> None
      | Busy t \<Rightarrow> Some (s\<lparr>pool_workers := (pool_workers s)[i := Idle],
                           executed := executed s @ [t]\<rparr>)
      | Gone \<Rightarrow> None)"
| "pool_step SetStop s =
     (if phase s = Open \<and> notifying s = 0
      then Some (s\<lparr>pool_stop := True, phase := Stopping\<rparr>)
      else None)"
| "pool_step NotifyAll s =
     (if phase s = Stopping
      then Some (s\<lparr>pool_workers := map wake (pool_workers s), phase := Joining\<rparr>)
      else None)"
| "pool_step Join s =
     (if phase s = Joining \<and> list_all (\<lambda>w. w = Gone) (pool_workers s)
      then Some (s\<lparr>phase := Destroyed\<rparr>)
      else None)"

fun pool_run :: "'t action list \<Rightarrow> 't pool \<Rightarrow> 't pool option" where
  "pool_run [] s = Some s"
| "pool_run (a # as) s = (case pool_step a s of None \<Rightarrow> None | Some s' \<Rightarrow> pool_run as s')"

inductive pool_reachable :: "nat \<Rightarrow> 't pool \<Rightarrow> bool" for n :: nat where
  pool_reachable_initial: "pool_reachable n (ThreadPool n)"
| pool_reachable_step:
    "pool_reachable n s \<Longrightarrow> pool_step a s = Some s' \<Longrightarrow> pool_reachable n s'"

text \<open>
  The actions of the pool's own code, as opposed to the decisions of its users to
  submit a task or to destroy the pool.
\<close>

fun internal :: "'t action \<Rightarrow> bool" where
  "internal (Enqueue f) = False"
| "internal SetStop = False"
| "internal a = True"

text \<open>
  \<open>settles P s\<close>: left to itself from \<open>s\<close>, the pool comes to a state with \<open>P\<close>
  whatever the order in which its threads move.
\<close>

inductive settles :: "('t pool \<Rightarrow> bool) \<Rightarrow> 't pool \<Rightarrow> bool" for P :: "'t pool \<Rightarrow> bool" where
  settles_now: "P s \<Longrightarrow> settles P s"
| settles_later:
    "\<exists>a s'. internal a \<and> pool_step a s = Some s' \<Longrightarrow>
     (\<And>a s'. internal a \<Longrightarrow> pool_step a s = Some s' \<Longrightarrow> settles P s') \<Longrightarrow> settles P s"

text \<open>The task that a worker is running.\<close>

fun busy :: "'t pool_worker \<Rightarrow> 't list" where
  "busy (Busy t) = [t]"
| "busy w = []"

text \<open>
  Every submitted task has run, once for each time it was submitted, and a destructor
  that has begun has finished.
\<close>

definition all_done :: "'t pool \<Rightarrow> bool" where
  "all_done s \<longleftrightarrow>
     mset (executed s) = mset (submitted s) \<and> pool_tasks s = []
     \<and> (phase s = Open \<or> phase s = Destroyed)"

text \<open>A bound on the number of internal steps that remain.\<close>

fun weight_p :: "'t pool_worker \<Rightarrow> nat" where
  "weight_p Idle = 1"
| "weight_p Asleep = 0"
| "weight_p (Busy t) = 2"
| "weight_p Gone = 0"

fun weight_phase :: "nat \<Rightarrow> phase \<Rightarrow> nat" where
  "weight_phase n Open = n + 3"
| "weight_phase n Stopping = n + 2"
| "weight_phase n Joining = 1"
| "weight_phase n Destroyed = 0"

definition pool_remaining :: "'t pool \<Rightarrow> nat" where
  "pool_remaining s =
     weight_phase (length (pool_workers s)) (phase s) + 2 * notifying s
     + 3 * length (pool_tasks s) + sum_list (map weight_p (pool_workers s))"

text \<open>The invariants of the pool.\<close>

definition pool_inv :: "nat \<Rightarrow> 't pool \<Rightarrow> bool" where
  "pool_inv n s \<longleftrightarrow>
     length (pool_workers s) = n
     \<and> mset (submitted s)
         = mset (pool_tasks s) + mset (concat (map busy (pool_workers s))) + mset (executed s)
     \<and> (pool_stop s \<longleftrightarrow> phase s \<noteq> Open)
     \<and> (phase s \<noteq> Open \<longrightarrow> notifying s = 0)
     \<and> (Gone \<in> set (pool_workers s) \<longrightarrow> pool_stop s \<and> pool_tasks s = [])
     \<and> (phase s = Joining \<or> phase s = Destroyed \<longrightarrow> Asleep \<notin> set (pool_workers s))
     \<and> (phase s = Destroyed \<longrightarrow> (\<forall>w \<in> set (pool_workers s). w = Gone))"

definition pool_awake :: "'t pool \<Rightarrow> bool" where
  "pool_awake s \<longleftrightarrow>
     (pool_tasks s \<noteq> [] \<longrightarrow>
        (\<exists>w \<in> set (pool_workers s). w = Idle \<or> (\<exists>t. w = Busy t)) \<or> 0 < notifying s)"

text \<open>
  An example: a pool of two workers, both asleep when two tasks are submitted; the
  notification of the first client has woken worker 1, which has taken task 1, while the
  second client has not yet notified.
\<close>

definition pool_demo_actions :: "nat action list" where
  "pool_demo_actions = [Work 0, Work 1, Enqueue 1, Enqueue 2, NotifyOne 1, Work 1]"

definition pool_demo :: "nat pool" where
  "pool_demo =
     \<lparr>pool_tasks = [2], pool_stop = False, pool_workers = [Asleep, Busy 1], notifying = 1,
      phase = Open, submitted = [1, 2], executed = []\<rparr>"


section \<open>Properties of the scanner\<close>

lemma int32_id: "- 2147483648 \<le> x \<Longrightarrow> x < 2147483648 \<Longrightarrow> int32 x = x"
  by (simp add: int32_def)

lemma int32_add_left: "int32 (int32 x + y) = int32 (x + y)"
proof -
  have "int32 (int32 x + y) = ((x + 2147483648) mod 4294967296 + y) mod 4294967296 - 2147483648"
    by (simp add: int32_def)
  also have "\<dots> = (x + 2147483648 + y) mod 4294967296 - 2147483648"
    by (simp only: mod_add_left_eq)
  also have "\<dots> = int32 (x + y)"
    by (simp add: int32_def algebra_simps)
  finally show ?thesis .
qed

lemma int32_add_right: "int32 (x + int32 y) = int32 (x + y)"
  using int32_add_left [of y x] by (simp add: add.commute)

lemma int32_idem: "int32 (int32 x) = int32 x"
  using int32_add_left [of x 0] by simp

text \<open>
  Incrementing \<open>n\<close> times, with the wrap-around each time, is adding \<open>n\<close> and wrapping
  once; this is how the counting pass is modelled.
\<close>

lemma int32_increments: "int32 (((\<lambda>x. int32 (x + 1)) ^^ n) x) = int32 (x + int n)"
proof (induction n)
  case 0
  show ?case by simp
next
  case (Suc n)
  have "int32 (((\<lambda>x. int32 (x + 1)) ^^ Suc n) x)
      = int32 (int32 (((\<lambda>x. int32 (x + 1)) ^^ n) x) + 1)"
    by (simp add: int32_idem int32_add_left)
  also have "\<dots> = int32 (x + int (Suc n))"
    by (simp add: Suc.IH int32_add_left int32_add_right add_ac)
  finally show ?case .
qed

lemma int32_range: "- 2147483648 \<le> int32 x \<and> int32 x < 2147483648"
proof -
  have "0 \<le> (x + 2147483648) mod 4294967296" "(x + 2147483648) mod 4294967296 < 4294967296"
    by simp_all
  then show ?thesis unfolding int32_def by linarith
qed

lemma find_from_sublist: "find_from str line pos \<noteq> None \<longleftrightarrow> sublist str line"
  by (induction line arbitrary: pos) (auto simp: sublist_Cons_right)

lemma string_find_sublist: "string_find line str \<noteq> None \<longleftrightarrow> line_matches str line"
  unfolding string_find_def line_matches_def by (rule find_from_sublist)

lemma string_find_Some: "(\<exists>y. string_find line str = Some y) \<longleftrightarrow> line_matches str line"
  using string_find_sublist [of line str] by simp

lemma string_find_None: "string_find line str = None \<longleftrightarrow> \<not> line_matches str line"
  using string_find_sublist [of line str] by blast

lemma filter_upt_Suc:
  "filter P [0..<Suc k] = (if P 0 then [0] else []) @ map Suc (filter (\<lambda>i. P (Suc i)) [0..<k])"
proof -
  have "[0..<Suc k] = 0 # map Suc [0..<k]"
    by (simp add: upt_conv_Cons map_Suc_upt del: upt_Suc)
  then show ?thesis by (simp add: filter_map comp_def del: upt_Suc)
qed

lemma matching_numbers_Cons:
  "matching_numbers t (l # ls) =
     (if line_matches t l then [1] else []) @ map (\<lambda>n. n + 1) (matching_numbers t ls)"
  unfolding matching_numbers_def
  by (simp add: filter_upt_Suc comp_def del: upt_Suc)

text \<open>
  What the loop collects: the numbers of the matching lines, each brought into the range
  of an \<open>int\<close>.
\<close>

lemma scan_lines_acc:
  "scan_lines t file n acc =
     acc @ map (\<lambda>k. int32 (n + k)) (matching_numbers t (file_lines file))"
proof (induction t "file" n acc rule: scan_lines.induct)
  case (1 t f n acc)
  show ?case
  proof (cases "getline f")
    case None
    then show ?thesis
      by (simp add: scan_lines.simps [of t f] file_lines.simps [of f] matching_numbers_def)
  next
    case (Some p)
    obtain line rest where p: "p = (line, rest)" by (cases p)
    note ih = "1.IH" [OF Some [unfolded p] refl]
    show ?thesis
      using Some p ih
      by (simp add: scan_lines.simps [of t f] file_lines.simps [of f] matching_numbers_Cons
          string_find_Some string_find_None comp_def int32_add_left int32_add_right add_ac)
  qed
qed

lemma scan_lines_wrapped:
  "scan_lines t file 0 [] = map int32 (matching_numbers t (file_lines file))"
  by (simp add: scan_lines_acc)

lemma sorted_matching_numbers: "sorted_wrt (<) (matching_numbers t ls)"
proof -
  have "sorted_wrt (<) (filter (\<lambda>i. line_matches t (ls ! i)) [0..<length ls])"
    by (rule sorted_wrt_filter) simp
  then have "sorted_wrt (\<lambda>x y. int x + 1 < int y + 1)
      (filter (\<lambda>i. line_matches t (ls ! i)) [0..<length ls])"
    by (rule sorted_wrt_mono_rel [rotated]) simp
  then show ?thesis
    unfolding matching_numbers_def sorted_wrt_map .
qed

lemma set_matching_numbers:
  "n \<in> set (matching_numbers t ls) \<longleftrightarrow>
     1 \<le> n \<and> n \<le> int (length ls) \<and> line_matches t (ls ! nat (n - 1))"
proof
  assume "n \<in> set (matching_numbers t ls)"
  then obtain i where i: "i < length ls" "line_matches t (ls ! i)" "n = int i + 1"
    unfolding matching_numbers_def by auto
  then have "nat (n - 1) = i" by simp
  with i show "1 \<le> n \<and> n \<le> int (length ls) \<and> line_matches t (ls ! nat (n - 1))"
    by simp
next
  assume a: "1 \<le> n \<and> n \<le> int (length ls) \<and> line_matches t (ls ! nat (n - 1))"
  then have "nat (n - 1) < length ls" "n = int (nat (n - 1)) + 1" by auto
  with a show "n \<in> set (matching_numbers t ls)"
    unfolding matching_numbers_def by (auto simp: image_iff intro!: bexI [of _ "nat (n - 1)"])
qed

text \<open>
  As long as the file has fewer than \<open>2^31\<close> lines no number leaves the range, and the
  loop collects the numbers themselves.
\<close>

lemma scan_lines_eq:
  assumes "length (file_lines file) < 2147483648"
  shows "scan_lines t file 0 [] = matching_numbers t (file_lines file)"
proof -
  have "map int32 (matching_numbers t (file_lines file))
      = map (\<lambda>n. n) (matching_numbers t (file_lines file))"
  proof (rule map_cong [OF refl])
    fix n assume "n \<in> set (matching_numbers t (file_lines file))"
    then have "1 \<le> n" "n \<le> int (length (file_lines file))"
      by (simp_all add: set_matching_numbers)
    with assms show "int32 n = n" by (intro int32_id) simp_all
  qed
  then show ?thesis by (simp add: scan_lines_wrapped)
qed

lemma matching_numbers_empty_term:
  "matching_numbers [] ls = map int [1..<Suc (length ls)]"
proof -
  have "map int [1..<Suc (length ls)] = map (\<lambda>i. int i + 1) [0..<length ls]"
    by (simp add: map_Suc_upt [symmetric] del: upt_Suc)
  then show ?thesis
    unfolding matching_numbers_def line_matches_def by simp
qed

lemma file_lines_Nil: "file_lines f = [] \<longleftrightarrow> f = []"
  by (cases f) (simp_all add: file_lines.simps [of "[]"] file_lines.simps [of "_ # _"])

lemma distinct_matching_numbers: "distinct (matching_numbers t ls)"
  unfolding matching_numbers_def by (simp add: distinct_map inj_on_def)

text \<open>
  A file of \<open>n\<close> lines that all match: the number of the last line is collected as
  \<open>int32 n\<close>, and nothing outside the range of an \<open>int\<close> is collected.
\<close>

lemma matching_numbers_all:
  assumes "\<forall>l \<in> set ls. line_matches t l"
  shows "matching_numbers t ls = map (\<lambda>i. int i + 1) [0..<length ls]"
proof -
  have "filter (\<lambda>i. line_matches t (ls ! i)) [0..<length ls] = [0..<length ls]"
    using assms by (simp add: filter_id_conv)
  then show ?thesis by (simp add: matching_numbers_def)
qed

lemma last_line_wrapped:
  assumes all: "\<forall>l \<in> set (file_lines file). line_matches t l"
    and n: "length (file_lines file) = Suc k"
  shows "int32 (int k + 1) \<in> set (scan_lines t file 0 [])"
proof -
  have "k \<in> set [0..<length (file_lines file)]" using n by simp
  then have "int32 (int k + 1)
      \<in> set (map int32 (map (\<lambda>i. int i + 1) [0..<length (file_lines file)]))"
    by (auto intro!: image_eqI [where x = k])
  then show ?thesis
    by (simp only: scan_lines_wrapped matching_numbers_all [OF all])
qed

lemma scan_lines_range: "n \<in> set (scan_lines t file 0 []) \<Longrightarrow> n < 2147483648"
  using int32_range by (auto simp: scan_lines_wrapped)

lemma file_lines_replicate:
  "l \<noteq> [] \<Longrightarrow> newline \<notin> set l \<Longrightarrow>
   file_lines (concat (replicate n (l @ [newline]))) = replicate n l"
proof (induction n)
  case 0
  show ?case by (simp add: file_lines.simps [of "[]"])
next
  case (Suc n)
  from Suc.prems obtain c cs where l: "l = c # cs" by (cases l) auto
  have "getline (l @ [newline] @ concat (replicate n (l @ [newline])))
      = Some (l, concat (replicate n (l @ [newline])))"
    using Suc.prems unfolding l
    by (auto simp: takeWhile_append dropWhile_append takeWhile_eq_all_conv [THEN iffD2]
        dropWhile_eq_Nil_conv [THEN iffD2])
  then show ?case
    using Suc.IH [OF Suc.prems]
    by (simp add: file_lines.simps [of "l @ newline # concat (replicate n (l @ [newline]))"])
qed

lemma file_lines_newlines: "file_lines (replicate n newline) = replicate n []"
proof (induction n)
  case 0
  show ?case by (simp add: file_lines.simps [of "[]"])
next
  case (Suc n)
  then show ?case
    by (simp add: file_lines.simps [of "newline # replicate n newline"])
qed

text \<open>
  C4. For a file that opens and has fewer than \<open>2^31\<close> lines, the line numbers that the
  scanner collects are the numbers, counted from 1, of exactly the lines that contain
  the term as a literal substring, in strictly increasing order and each only once,
  however often the term occurs on the line; \<open>searchInFile\<close> appends this list, when it
  is not empty, under the file's path. The statement holds for every term, the non-empty
  ones in particular.
\<close>

theorem C4_line_numbers:
  assumes "length (file_lines content) < 2147483648"
  shows "scan_lines t content 0 [] = matching_numbers t (file_lines content)
   \<and> sorted_wrt (<) (scan_lines t content 0 [])
   \<and> distinct (scan_lines t content 0 [])
   \<and> (\<forall>n. n \<in> set (scan_lines t content 0 []) \<longleftrightarrow>
          1 \<le> n \<and> n \<le> int (length (file_lines content))
          \<and> line_matches t (file_lines content ! nat (n - 1)))
   \<and> snd (searchInFile rs filepath (Some content) t) =
       (if scan_lines t content 0 [] = [] then rs
        else rs @ [(filepath, scan_lines t content 0 [])])"
  by (simp add: scan_lines_eq [OF assms] sorted_matching_numbers distinct_matching_numbers
      set_matching_numbers searchInFile_def Let_def)

theorem C4_line_numbers_witness:
  "scan_lines ''aa'' (''aaa'' @ [newline] @ ''b'' @ [newline] @ ''xaax aa'') 0 [] = [1, 3]
   \<and> file_lines (''aaa'' @ [newline] @ ''b'' @ [newline] @ ''xaax aa'')
       = [''aaa'', ''b'', ''xaax aa'']
   \<and> matching_numbers ''aa'' [''aaa'', ''b'', ''xaax aa''] = [1, 3]"
proof -
  have l: "file_lines (''aaa'' @ [newline] @ ''b'' @ [newline] @ ''xaax aa'')
      = [''aaa'', ''b'', ''xaax aa'']"
    by (simp add: file_lines.simps newline_def)
  have s: "scan_lines ''aa'' (''aaa'' @ [newline] @ ''b'' @ [newline] @ ''xaax aa'') 0 [] = [1, 3]"
    by (simp add: scan_lines.simps newline_def string_find_def int32_def)
  have b: "length (file_lines (''aaa'' @ [newline] @ ''b'' @ [newline] @ ''xaax aa''))
      < 2147483648"
    unfolding l by simp
  from C4_line_numbers [OF b, of "''aa''"]
  have "scan_lines ''aa'' (''aaa'' @ [newline] @ ''b'' @ [newline] @ ''xaax aa'') 0 []
      = matching_numbers ''aa''
          (file_lines (''aaa'' @ [newline] @ ''b'' @ [newline] @ ''xaax aa''))"
    by blast
  with l s show ?thesis by simp
qed

text \<open>
  Without the bound the statement fails. In the file of \<open>2^31\<close> lines \<open>a\<close> the last
  line has the term \<open>a\<close>; its number is not collected, and \<open>- 2^31\<close>, the number of no
  line, is.
\<close>

theorem C4_line_numbers_counterexample:
  "length (file_lines many_lines) = 2147483648
   \<and> line_matches ''a'' (file_lines many_lines ! 2147483647)
   \<and> 2147483648 \<notin> set (scan_lines ''a'' many_lines 0 [])
   \<and> - 2147483648 \<in> set (scan_lines ''a'' many_lines 0 [])"
proof -
  have l: "file_lines many_lines = replicate 2147483648 ''a''"
    unfolding many_lines_def by (rule file_lines_replicate) (simp_all add: newline_def)
  have m: "line_matches ''a'' ''a''"
    by (simp add: line_matches_def)
  have "int32 (int 2147483647 + 1) \<in> set (scan_lines ''a'' many_lines 0 [])"
    by (rule last_line_wrapped) (simp_all add: l m)
  then have "- 2147483648 \<in> set (scan_lines ''a'' many_lines 0 [])"
    by (simp add: int32_def)
  moreover have "2147483648 \<notin> set (scan_lines ''a'' many_lines 0 [])"
    using scan_lines_range [of 2147483648 "''a''" many_lines] by auto
  ultimately show ?thesis by (simp add: l m)
qed

text \<open>
  C9. \<open>main\<close> does not look at the search term, so an empty one is accepted like any
  other. With the empty search term \<open>find\<close> succeeds at position 0 on every line, so
  the scanner collects a number for every line. For a file that opens and has fewer
  than \<open>2^31\<close> lines these are the numbers of all its lines, and if it has at least one
  line the file is appended to the results with them. (An empty file has no line and is
  not reported.)
\<close>

theorem C9_empty_term:
  "string_find line [] = Some 0
   \<and> (length (file_lines content) < 2147483648 \<longrightarrow>
        scan_lines [] content 0 [] = map int [1..<Suc (length (file_lines content))]
        \<and> searchInFile rs filepath (Some content) [] =
           (if content = [] then (False, rs)
            else (True, rs @ [(filepath, map int [1..<Suc (length (file_lines content))])])))
   \<and> (3 \<le> length (argv c) \<and> filesystem c (directoryPath c) = Found n \<longrightarrow>
        step c Driver initial = Some (initial\<lparr>out := [searching c], driver := AtCount\<rparr>))"
proof -
  have a: "string_find line [] = Some 0"
    by (cases line) (simp_all add: string_find_def)
  have b: "scan_lines [] content 0 [] = map int [1..<Suc (length (file_lines content))]
        \<and> searchInFile rs filepath (Some content) [] =
           (if content = [] then (False, rs)
            else (True, rs @ [(filepath, map int [1..<Suc (length (file_lines content))])]))"
    if bound: "length (file_lines content) < 2147483648"
  proof -
    have s: "scan_lines [] content 0 [] = map int [1..<Suc (length (file_lines content))]"
      by (simp only: scan_lines_eq [OF bound] matching_numbers_empty_term)
    moreover have "map int [1..<Suc (length (file_lines content))] = [] \<longleftrightarrow> content = []"
      using file_lines_Nil [of content] by (simp del: upt_Suc)
    ultimately show ?thesis
      by (simp add: searchInFile_def Let_def del: upt_Suc)
  qed
  have d: "3 \<le> length (argv c) \<and> filesystem c (directoryPath c) = Found n \<longrightarrow>
        step c Driver initial = Some (initial\<lparr>out := [searching c], driver := AtCount\<rparr>)"
    by (simp add: driver_step_def initial_def)
  from a b d show ?thesis by blast
qed

theorem C9_empty_term_witness:
  "searchInFile [] ''d/f'' (Some (''x'' @ [newline] @ [newline] @ ''yz'')) []
     = (True, [(''d/f'', [1, 2, 3])])
   \<and> step (demo\<lparr>argv := [''search'', ''d'', []]\<rparr>) Driver initial
     = Some (initial\<lparr>out := [Cout (''Searching for '' @ [CHR 0x27, CHR 0x27] @ '' in d'')],
                     driver := AtCount\<rparr>)"
proof -
  have l: "file_lines (''x'' @ [newline] @ [newline] @ ''yz'') = [''x'', [], ''yz'']"
    by (simp add: file_lines.simps newline_def)
  note t = C9_empty_term [where content = "''x'' @ [newline] @ [newline] @ ''yz''"
      and rs = "[]" and filepath = "''d/f''" and n = demo_tree
      and c = "demo\<lparr>argv := [''search'', ''d'', []]\<rparr>"]
  from t have a: "searchInFile [] ''d/f'' (Some (''x'' @ [newline] @ [newline] @ ''yz'')) []
     = (True, [(''d/f'', [1, 2, 3])])"
    using l by (simp add: upt_rec)
  from t have b: "step (demo\<lparr>argv := [''search'', ''d'', []]\<rparr>) Driver initial
     = Some (initial\<lparr>out := [Cout (''Searching for '' @ [CHR 0x27, CHR 0x27] @ '' in d'')],
                     driver := AtCount\<rparr>)"
    by (simp add: searching_def searchTerm_def directoryPath_def demo_def only_d_def)
  from a b show ?thesis by (rule conjI)
qed

text \<open>
  Without the bound the statement fails. The file of \<open>2^31\<close> empty lines is reported
  with a list that does not have the number of its last line and has \<open>- 2^31\<close>, the
  number of no line.
\<close>

theorem C9_empty_term_counterexample:
  "length (file_lines many_empty_lines) = 2147483648
   \<and> 2147483648 \<notin> set (scan_lines [] many_empty_lines 0 [])
   \<and> - 2147483648 \<in> set (scan_lines [] many_empty_lines 0 [])"
proof -
  have l: "file_lines many_empty_lines = replicate 2147483648 []"
    unfolding many_empty_lines_def by (rule file_lines_newlines)
  have m: "line_matches [] []"
    by (simp add: line_matches_def)
  have "int32 (int 2147483647 + 1) \<in> set (scan_lines [] many_empty_lines 0 [])"
    by (rule last_line_wrapped) (simp_all add: l m)
  then have "- 2147483648 \<in> set (scan_lines [] many_empty_lines 0 [])"
    by (simp add: int32_def)
  moreover have "2147483648 \<notin> set (scan_lines [] many_empty_lines 0 [])"
    using scan_lines_range [of 2147483648 "[]" many_empty_lines] by auto
  ultimately show ?thesis by (simp add: l)
qed

section \<open>The walk visits what is under the directory\<close>

lemma under_Nil: "\<not> under dir [] p n"
  by (auto elim: under.cases)

lemma under_Cons:
  "under dir ((name, m) # es) p n \<longleftrightarrow>
     (p = path_join dir name \<and> n = m)
     \<or> (\<exists>sub. m = Directory sub \<and> under (path_join dir name) sub p n)
     \<or> under dir es p n"
proof
  assume "under dir ((name, m) # es) p n"
  then show "(p = path_join dir name \<and> n = m)
     \<or> (\<exists>sub. m = Directory sub \<and> under (path_join dir name) sub p n)
     \<or> under dir es p n"
  proof (cases rule: under.cases)
    case (under_here name')
    then show ?thesis by (auto intro: under.under_here)
  next
    case (under_below name' sub)
    then show ?thesis by (auto intro: under.under_below)
  qed
next
  assume a: "(p = path_join dir name \<and> n = m)
     \<or> (\<exists>sub. m = Directory sub \<and> under (path_join dir name) sub p n)
     \<or> under dir es p n"
  have mono: "under dir ((name, m) # es) p n" if "under dir es p n"
    using that
  proof (cases rule: under.cases)
    case (under_here name')
    then show ?thesis by (auto intro: under.under_here)
  next
    case (under_below name' sub)
    then have "(name', Directory sub) \<in> set ((name, m) # es)" by simp
    from under.under_below [OF this under_below(2)] show ?thesis .
  qed
  from a show "under dir ((name, m) # es) p n"
  proof (elim disjE conjE exE)
    assume "p = path_join dir name" "n = m"
    then show ?thesis by (auto intro: under.under_here)
  next
    fix sub assume "m = Directory sub" "under (path_join dir name) sub p n"
    then show ?thesis by (auto intro: under.under_below)
  next
    assume "under dir es p n"
    then show ?thesis by (rule mono)
  qed
qed

text \<open>
  When the iteration does not throw, the entries it visits are exactly the nodes under
  the directory.
\<close>

lemma walk_under:
  "\<not> snd (walk_entries dir es) \<Longrightarrow>
     set (fst (walk_entries dir es)) = {(q, m). under dir es q m}"
  "\<not> snd (walk_node p n) \<Longrightarrow>
     set (fst (walk_node p n)) = {(q, m). \<exists>sub. n = Directory sub \<and> under p sub q m}"
proof (induction dir es and p n rule: walk_entries_walk_node.induct)
  case (1 dir)
  show ?case by (simp add: under_Nil)
next
  case (2 dir name n es)
  obtain sub failed where w: "walk_node (path_join dir name) n = (sub, failed)"
    by (cases "walk_node (path_join dir name) n")
  obtain rest failed' where r: "walk_entries dir es = (rest, failed')"
    by (cases "walk_entries dir es")
  from "2.prems" w r have nf: "\<not> failed" "\<not> failed'"
    by (auto simp: Let_def split: if_splits)
  from "2.IH"(1) w nf
  have s: "set sub = {(q, m). \<exists>sub'. n = Directory sub' \<and> under (path_join dir name) sub' q m}"
    by simp
  from "2.IH"(2) [OF refl refl w [symmetric] nf(1)] r nf
  have t: "set rest = {(q, m). under dir es q m}"
    by simp
  have "set (fst (walk_entries dir ((name, n) # es)))
      = insert (path_join dir name, n) (set sub \<union> set rest)"
    using w r nf by (simp add: Let_def)
  also have "\<dots> = {(q, m). under dir ((name, n) # es) q m}"
    unfolding s t by (auto simp: under_Cons)
  finally show ?case .
next
  case (3 p es)
  then show ?case by simp
next
  case (4 p)
  then show ?case by simp
next
  case (5 p f)
  show ?case by simp
next
  case (6 p)
  show ?case by simp
qed

section \<open>Case analysis of the steps\<close>

lemma driver_step_cases [consumes 1, case_names usage missing unresolvable searching
    count_failed counted pool dispatched skipped dispatch_done dispatch_failed drained
    reported stopped joined thrown unwound]:
  assumes "driver_step c s = Some s'"
  obtains
    "driver s = AtMain" "length (argv c) < 3"
      "s' = s\<lparr>out := out s @ [usage c], driver := AtExit 1\<rparr>"
  | "driver s = AtMain" "3 \<le> length (argv c)" "filesystem c (directoryPath c) = NotFound"
      "s' = s\<lparr>out := out s @ [Cerr ''Directory does not exist.''], driver := AtExit 1\<rparr>"
  | "driver s = AtMain" "3 \<le> length (argv c)" "filesystem c (directoryPath c) = Unresolvable"
      "s' = s\<lparr>out := out s @ [FilesystemError], driver := AtExit 1\<rparr>"
  | n where "driver s = AtMain" "3 \<le> length (argv c)"
      "filesystem c (directoryPath c) = Found n"
      "s' = s\<lparr>out := out s @ [searching c], driver := AtCount\<rparr>"
  | "driver s = AtCount" "snd (counting_pass c)"
      "s' = s\<lparr>total_files := int32 (total_files s + int (length (counted_files c))),
               out := out s @ [FilesystemError], driver := AtExit 1\<rparr>"
  | "driver s = AtCount" "\<not> snd (counting_pass c)"
      "s' = s\<lparr>total_files := int32 (total_files s + int (length (counted_files c))),
               driver := AtPool\<rparr>"
  | "driver s = AtPool"
      "s' = s\<lparr>workers := replicate (hardware_concurrency c) Waiting,
               driver := AtDispatch (fst (dispatch_pass c)) (snd (dispatch_pass c))\<rparr>"
  | e es failed where "driver s = AtDispatch (e # es) failed" "is_regular_file e"
      "s' = s\<lparr>tasks := tasks s @ [e], driver := AtDispatch es failed\<rparr>"
  | e es failed where "driver s = AtDispatch (e # es) failed" "\<not> is_regular_file e"
      "s' = s\<lparr>driver := AtDispatch es failed\<rparr>"
  | "driver s = AtDispatch [] False" "s' = s\<lparr>driver := AtDrain\<rparr>"
  | "driver s = AtDispatch [] True" "s' = s\<lparr>driver := AtThrown\<rparr>"
  | "driver s = AtDrain" "total_files s \<le> files_processed s" "s' = s\<lparr>driver := AtReport\<rparr>"
  | "driver s = AtReport" "s' = s\<lparr>out := out s @ report (results s), driver := AtStop\<rparr>"
  | "driver s = AtStop" "s' = s\<lparr>stop := True, driver := AtJoin\<rparr>"
  | "driver s = AtJoin" "list_all (\<lambda>w. w = Exited) (workers s)" "s' = s\<lparr>driver := AtExit 0\<rparr>"
  | "driver s = AtThrown" "s' = s\<lparr>stop := True, driver := AtUnwind\<rparr>"
  | "driver s = AtUnwind" "list_all (\<lambda>w. w = Exited) (workers s)"
      "s' = s\<lparr>out := out s @ [FilesystemError], driver := AtExit 1\<rparr>"
proof (cases "driver s")
  case AtMain
  with assms that(1,2,3,4) show ?thesis
    unfolding driver_step_def
    by (cases "filesystem c (directoryPath c)") (simp_all split: if_splits)
next
  case AtCount
  with assms that(5,6) show ?thesis
    unfolding driver_step_def counted_files_def
    by (simp add: Let_def split: if_splits prod.splits)
next
  case AtPool
  with assms that(7) show ?thesis
    unfolding driver_step_def by simp
next
  case (AtDispatch es failed)
  with assms that(8,9,10,11) show ?thesis
    unfolding driver_step_def
    by (cases es; cases failed) (simp_all split: if_splits)
next
  case AtDrain
  with assms that(12) show ?thesis
    unfolding driver_step_def by (simp split: if_splits)
next
  case AtReport
  with assms that(13) show ?thesis
    unfolding driver_step_def by simp
next
  case AtStop
  with assms that(14) show ?thesis
    unfolding driver_step_def by simp
next
  case AtJoin
  with assms that(15) show ?thesis
    unfolding driver_step_def by (simp split: if_splits)
next
  case AtThrown
  with assms that(16) show ?thesis
    unfolding driver_step_def by simp
next
  case AtUnwind
  with assms that(17) show ?thesis
    unfolding driver_step_def by (simp split: if_splits)
next
  case (AtExit code)
  with assms show ?thesis
    unfolding driver_step_def by simp
qed

lemma worker_step_cases [consumes 1, case_names leave take scan incr print]:
  assumes "worker_step c i s = Some s'"
  obtains
    "i < length (workers s)" "workers s ! i = Waiting" "stop s" "tasks s = []"
      "s' = s\<lparr>workers := (workers s)[i := Exited]\<rparr>"
  | t ts where "i < length (workers s)" "workers s ! i = Waiting" "tasks s = t # ts"
      "s' = s\<lparr>tasks := ts, workers := (workers s)[i := Running t Scan]\<rparr>"
  | t where "i < length (workers s)" "workers s ! i = Running t Scan"
      "s' = s\<lparr>results := snd (searchInFile (results s) (fst t) (open_file t) (searchTerm c)),
               workers := (workers s)[i := Running t Incr]\<rparr>"
  | t where "i < length (workers s)" "workers s ! i = Running t Incr"
      "s' = s\<lparr>files_processed := int32 (files_processed s + 1),
               workers := (workers s)[i := Running t Print]\<rparr>"
  | t where "i < length (workers s)" "workers s ! i = Running t Print"
      "s' = s\<lparr>out := out s @ [progress (files_processed s) (total_files s)],
               workers := (workers s)[i := Waiting]\<rparr>"
proof -
  from assms have i: "i < length (workers s)"
    unfolding worker_step_def by (simp split: if_splits)
  show ?thesis
  proof (cases "workers s ! i")
    case Waiting
    with assms i that(1,2) show ?thesis
      unfolding worker_step_def
      by (cases "tasks s") (simp_all split: if_splits)
  next
    case (Running t pc)
    with assms i that(3,4,5) show ?thesis
      unfolding worker_step_def
      by (cases pc) simp_all
  next
    case Exited
    with assms i show ?thesis
      unfolding worker_step_def by simp
  qed
qed

lemma reachable_invariant [consumes 1, case_names initial driver worker]:
  assumes "reachable c s"
    and "P initial"
    and "\<And>s s'. reachable c s \<Longrightarrow> P s \<Longrightarrow> driver_step c s = Some s' \<Longrightarrow> P s'"
    and "\<And>s i s'. reachable c s \<Longrightarrow> P s \<Longrightarrow> worker_step c i s = Some s' \<Longrightarrow> P s'"
  shows "P s"
  using assms(1)
proof induction
  case reachable_initial
  show ?case by (rule assms(2))
next
  case (reachable_step s th s')
  then show ?case
    by (cases th) (auto intro: assms(3,4))
qed

section \<open>The invariants hold in every reachable state\<close>

lemma concat_update_mset:
  "i < length ws \<Longrightarrow>
     mset (concat (map f (ws[i := w]))) + mset (f (ws ! i)) = mset (concat (map f ws)) + mset (f w)"
  by (induction ws arbitrary: i) (auto split: nat.splits simp: ac_simps)

lemma concat_update_length:
  assumes "i < length ws"
  shows "length (concat (map f (ws[i := w]))) + length (f (ws ! i))
           = length (concat (map f ws)) + length (f w)"
proof -
  have "size (mset (concat (map f (ws[i := w]))) + mset (f (ws ! i)))
      = size (mset (concat (map f ws)) + mset (f w))"
    by (simp only: concat_update_mset [OF assms])
  then show ?thesis by simp
qed

lemma owed_simps [simp]:
  "owed str [] = {#}"
  "owed str (t # ts) = mset (result_of str t) + owed str ts"
  "owed str (xs @ ys) = owed str xs + owed str ys"
  by (simp_all add: owed_def)

lemma owed_mset: "owed str ts = (\<Sum>t\<in>#mset ts. mset (result_of str t))"
  by (induction ts) simp_all

lemma concat_update_owed:
  assumes "i < length ws"
  shows "owed str (concat (map f (ws[i := w]))) + owed str (f (ws ! i))
           = owed str (concat (map f ws)) + owed str (f w)"
proof -
  have "(\<Sum>t\<in>#mset (concat (map f (ws[i := w]))) + mset (f (ws ! i)). mset (result_of str t))
      = (\<Sum>t\<in>#mset (concat (map f ws)) + mset (f w). mset (result_of str t))"
    by (simp only: concat_update_mset [OF assms])
  then show ?thesis by (simp add: owed_mset)
qed

lemma regular_files_fold: "filter is_regular_file (fst (dispatch_pass c)) = regular_files c"
  by (simp add: regular_files_def)

lemma searchInFile_append:
  "snd (searchInFile rs p f str) = rs @ snd (searchInFile [] p f str)"
  by (simp add: searchInFile_def Let_def split: option.splits)

lemma searchInFile_result_of:
  "snd (searchInFile rs (fst t) (open_file t) str) = rs @ result_of str t"
  unfolding result_of_def by (rule searchInFile_append)

lemma int32_0 [simp]: "int32 0 = 0"
  by (simp add: int32_def)

lemma reachable_inv_early: "reachable c s \<Longrightarrow> inv_early c s"
proof (induction rule: reachable_invariant)
  case initial
  show ?case by (simp add: inv_early_def initial_def begun_def)
next
  case (driver s s')
  then have st: "driver_step c s = Some s'" and ih: "inv_early c s" by simp_all
  from st ih show ?case
    by (cases rule: driver_step_cases) (simp_all add: inv_early_def begun_def)
next
  case (worker s i s')
  then have st: "worker_step c i s = Some s'" and ih: "inv_early c s" by simp_all
  from st have i: "workers s \<noteq> []"
    by (cases rule: worker_step_cases) auto
  with ih have b: "begun s" "driver s \<noteq> AtPool"
    by (auto simp: inv_early_def)
  from st have same: "driver s' = driver s" "stop s' = stop s" "total_files s' = total_files s"
    by (cases rule: worker_step_cases; simp)+
  with b have b': "begun s'" by (simp add: begun_def)
  from ih b have "total_files s = int32 (int (length (counted_files c)))"
    "\<not> snd (counting_pass c)" "3 \<le> length (argv c)"
    "\<exists>n. filesystem c (directoryPath c) = Found n"
    "stop s \<longrightarrow>
       driver s = AtJoin \<or> driver s = AtUnwind \<or> (\<exists>code. driver s = AtExit code)"
    "driver s = AtJoin \<or> driver s = AtUnwind \<or> driver s = AtExit 0 \<longrightarrow> stop s"
    "driver s \<noteq> AtMain" "driver s \<noteq> AtCount"
    by (auto simp: inv_early_def begun_def)
  with b b' same show ?case
    unfolding inv_early_def by simp
qed

lemma early_idle:
  assumes "reachable c s" "\<not> begun s \<or> driver s = AtPool"
  shows "tasks s = []" "workers s = []" "results s = []" "files_processed s = 0" "\<not> stop s"
  using reachable_inv_early [OF assms(1)] assms(2) by (simp_all add: inv_early_def)

lemma early_begun:
  assumes "reachable c s" "begun s"
  shows "total_files s = int32 (int (length (counted_files c)))" "\<not> snd (counting_pass c)"
    "3 \<le> length (argv c)" "\<exists>n. filesystem c (directoryPath c) = Found n"
  using reachable_inv_early [OF assms(1)] assms(2) by (simp_all add: inv_early_def)

lemma early_stop:
  assumes "reachable c s" "stop s"
  shows "driver s = AtJoin \<or> driver s = AtUnwind \<or> (\<exists>code. driver s = AtExit code)"
  using reachable_inv_early [OF assms(1)] assms(2) by (simp add: inv_early_def)

lemma early_joined:
  assumes "reachable c s" "driver s = AtJoin \<or> driver s = AtUnwind \<or> driver s = AtExit 0"
  shows "stop s"
  using reachable_inv_early [OF assms(1)] assms(2) by (simp add: inv_early_def)
lemma uncounted_length:
  "length (uncounted c s) = length (pending c (driver s)) + length (tasks s)
     + length (concat (map scanning (workers s))) + length (concat (map counting (workers s)))"
  by (simp add: uncounted_def unscanned_def)

lemma reachable_inv_counts: "reachable c s \<Longrightarrow> inv_counts c s"
proof (induction rule: reachable_invariant)
  case initial
  show ?case by (simp add: inv_counts_def initial_def begun_def)
next
  case (driver s s')
  then have st: "driver_step c s = Some s'" and ih: "inv_counts c s"
    and early: "inv_early c s" by (simp_all add: reachable_inv_early)
  from st ih early show ?case
    by (cases rule: driver_step_cases)
       (simp_all add: inv_counts_def inv_early_def begun_def uncounted_def unscanned_def
          regular_files_fold)
next
  case (worker s i s')
  then have st: "worker_step c i s = Some s'" and ih: "inv_counts c s" by simp_all
  from st show ?case
  proof (cases rule: worker_step_cases)
    case leave
    with concat_update_length [of i "workers s" scanning Exited]
      concat_update_length [of i "workers s" counting Exited]
      concat_update_length [of i "workers s" printing Exited]
    have "length (uncounted c s') = length (uncounted c s)"
      "length (concat (map printing (workers s'))) = length (concat (map printing (workers s)))"
      "begun s' = begun s" "files_processed s' = files_processed s"
      by (simp_all add: uncounted_length begun_def)
    with ih show ?thesis by (simp add: inv_counts_def)
  next
    case (take t ts)
    with concat_update_length [of i "workers s" scanning "Running t Scan"]
      concat_update_length [of i "workers s" counting "Running t Scan"]
      concat_update_length [of i "workers s" printing "Running t Scan"]
    have "length (uncounted c s') = length (uncounted c s)"
      "length (concat (map printing (workers s'))) = length (concat (map printing (workers s)))"
      "begun s' = begun s" "files_processed s' = files_processed s"
      by (simp_all add: uncounted_length begun_def)
    with ih show ?thesis by (simp add: inv_counts_def)
  next
    case (scan t)
    with concat_update_length [of i "workers s" scanning "Running t Incr"]
      concat_update_length [of i "workers s" counting "Running t Incr"]
      concat_update_length [of i "workers s" printing "Running t Incr"]
    have "length (uncounted c s') = length (uncounted c s)"
      "length (concat (map printing (workers s'))) = length (concat (map printing (workers s)))"
      "begun s' = begun s" "files_processed s' = files_processed s"
      by (simp_all add: uncounted_length begun_def)
    with ih show ?thesis by (simp add: inv_counts_def)
  next
    case (incr t)
    with concat_update_length [of i "workers s" scanning "Running t Print"]
      concat_update_length [of i "workers s" counting "Running t Print"]
      concat_update_length [of i "workers s" printing "Running t Print"]
    have u: "Suc (length (uncounted c s')) = length (uncounted c s)"
      and p: "length (concat (map printing (workers s')))
          = Suc (length (concat (map printing (workers s))))"
      and b: "begun s' = begun s"
      and f: "files_processed s' = int32 (files_processed s + 1)"
      by (simp_all add: uncounted_length begun_def)
    show ?thesis
    proof (cases "begun s")
      case False
      with b show ?thesis by (simp add: inv_counts_def)
    next
      case True
      with ih have fp: "files_processed s
          = int32 (int (length (regular_files c)) - int (length (uncounted c s)))"
        and le: "int (length (uncounted c s)) + int (length (concat (map printing (workers s))))
            \<le> int (length (regular_files c))"
        by (simp_all add: inv_counts_def)
      have "int (length (regular_files c)) - int (length (uncounted c s)) + 1
          = int (length (regular_files c)) - int (length (uncounted c s'))"
        using u by linarith
      with f fp have "files_processed s'
          = int32 (int (length (regular_files c)) - int (length (uncounted c s')))"
        by (simp add: int32_add_left)
      moreover from le u p
      have "int (length (uncounted c s')) + int (length (concat (map printing (workers s'))))
            \<le> int (length (regular_files c))"
        by linarith
      ultimately show ?thesis by (simp add: inv_counts_def)
    qed
  next
    case (print t)
    with concat_update_length [of i "workers s" scanning Waiting]
      concat_update_length [of i "workers s" counting Waiting]
      concat_update_length [of i "workers s" printing Waiting]
    have "length (uncounted c s') = length (uncounted c s)"
      "Suc (length (concat (map printing (workers s'))))
         = length (concat (map printing (workers s)))"
      "begun s' = begun s" "files_processed s' = files_processed s"
      by (simp_all add: uncounted_length begun_def)
    with ih show ?thesis by (auto simp: inv_counts_def)
  qed
qed

lemma reachable_inv_results: "reachable c s \<Longrightarrow> inv_results c s"
proof (induction rule: reachable_invariant)
  case initial
  show ?case by (simp add: inv_results_def initial_def begun_def)
next
  case (driver s s')
  then have st: "driver_step c s = Some s'" and ih: "inv_results c s"
    and early: "inv_early c s" by (simp_all add: reachable_inv_early)
  from st ih early show ?case
    by (cases rule: driver_step_cases)
       (simp_all add: inv_results_def inv_early_def begun_def unscanned_def expected_def
          owed_def regular_files_fold ac_simps)
next
  case (worker s i s')
  then have st: "worker_step c i s = Some s'" and ih: "inv_results c s" by simp_all
  from st show ?case
  proof (cases rule: worker_step_cases)
    case leave
    with ih
      concat_update_owed [of i "workers s" "searchTerm c" scanning Exited]
    show ?thesis
      by (simp add: inv_results_def begun_def unscanned_def ac_simps)
  next
    case (take t ts)
    with ih
      concat_update_owed [of i "workers s" "searchTerm c" scanning "Running t Scan"]
    show ?thesis
      by (simp add: inv_results_def begun_def unscanned_def ac_simps)
  next
    case (scan t)
    with ih
      concat_update_owed [of i "workers s" "searchTerm c" scanning "Running t Incr"]
    show ?thesis
      by (simp add: inv_results_def begun_def unscanned_def searchInFile_result_of ac_simps)
  next
    case (incr t)
    with ih
      concat_update_owed [of i "workers s" "searchTerm c" scanning "Running t Print"]
    show ?thesis
      by (simp add: inv_results_def begun_def unscanned_def ac_simps)
  next
    case (print t)
    with ih
      concat_update_owed [of i "workers s" "searchTerm c" scanning Waiting]
    show ?thesis
      by (simp add: inv_results_def begun_def unscanned_def ac_simps)
  qed
qed

lemma set_update_cases: "x \<in> set (ws[i := w]) \<Longrightarrow> x = w \<or> x \<in> set ws"
  using set_update_subset_insert [of ws i w] by auto

lemma not_all_exited:
  "i < length ws \<Longrightarrow> ws ! i \<noteq> Exited \<Longrightarrow> \<not> list_all (\<lambda>w. w = Exited) ws"
  by (auto simp: list_all_length)

lemma reachable_inv_pool: "reachable c s \<Longrightarrow> inv_pool c s"
proof (induction rule: reachable_invariant)
  case initial
  show ?case by (simp add: inv_pool_def initial_def begun_def)
next
  case (driver s s')
  then have st: "driver_step c s = Some s'" and ih: "inv_pool c s"
    and early: "inv_early c s" by (simp_all add: reachable_inv_early)
  have ns: "results s = [] \<and> files_processed s = 0 \<and> \<not> stop s"
    if "driver s = AtMain \<or> driver s = AtCount \<or> driver s = AtPool"
  proof -
    from that have "\<not> begun s \<or> driver s = AtPool" by (auto simp: begun_def)
    with early show ?thesis by (simp add: inv_early_def)
  qed
  from early have sd: "stop s \<Longrightarrow>
      driver s = AtJoin \<or> driver s = AtUnwind \<or> (\<exists>code. driver s = AtExit code)"
    by (simp add: inv_early_def)
  from ih sd have ne: "Exited \<in> set (workers s) \<Longrightarrow>
      driver s = AtJoin \<or> driver s = AtUnwind \<or> (\<exists>code. driver s = AtExit code)"
    by (simp add: inv_pool_def)
  from st show ?case
  proof (cases rule: driver_step_cases)
    case usage
    with ih ns show ?thesis by (simp add: inv_pool_def begun_def)
  next
    case missing
    with ih ns show ?thesis by (simp add: inv_pool_def begun_def)
  next
    case unresolvable
    with ih ns show ?thesis by (simp add: inv_pool_def begun_def)
  next
    case (searching n)
    with ih ns show ?thesis by (simp add: inv_pool_def begun_def)
  next
    case count_failed
    with ih ns show ?thesis by (simp add: inv_pool_def begun_def)
  next
    case counted
    with ih ns show ?thesis by (simp add: inv_pool_def begun_def)
  next
    case pool
    with ih ns show ?thesis by (simp add: inv_pool_def begun_def)
  next
    case (dispatched e es failed)
    with ih ne show ?thesis by (auto simp: inv_pool_def begun_def)
  next
    case (skipped e es failed)
    with ih show ?thesis by (simp add: inv_pool_def begun_def)
  next
    case dispatch_done
    with ih show ?thesis by (simp add: inv_pool_def begun_def)
  next
    case dispatch_failed
    with ih show ?thesis by (simp add: inv_pool_def begun_def)
  next
    case drained
    with ih show ?thesis by (simp add: inv_pool_def begun_def)
  next
    case reported
    with ih show ?thesis by (simp add: inv_pool_def begun_def)
  next
    case stopped
    with ih ne show ?thesis by (auto simp: inv_pool_def begun_def)
  next
    case joined
    with ih early show ?thesis by (simp add: inv_pool_def inv_early_def begun_def)
  next
    case thrown
    with ih ne show ?thesis by (auto simp: inv_pool_def begun_def)
  next
    case unwound
    with ih early show ?thesis by (simp add: inv_pool_def inv_early_def begun_def)
  qed
next
  case (worker s i s')
  then have st: "worker_step c i s = Some s'" and ih: "inv_pool c s" by simp_all
  from st have i: "i < length (workers s)" and ne: "workers s ! i \<noteq> Exited"
    by (cases rule: worker_step_cases; simp)+
  from not_all_exited [OF i ne] ih have x: "\<not> ((\<exists>code. driver s = AtExit code) \<and> stop s)"
    by (auto simp: inv_pool_def)
  from i have w: "workers s \<noteq> []" by auto
  from ih have a: "Exited \<in> set (workers s) \<Longrightarrow> stop s \<and> tasks s = []"
    and b: "begun s \<and> driver s \<noteq> AtPool \<longrightarrow> length (workers s) = hardware_concurrency c"
    by (simp_all add: inv_pool_def)
  from st show ?case
  proof (cases rule: worker_step_cases)
    case leave
    with a b x w show ?thesis
      by (auto simp: inv_pool_def begun_def dest: set_update_cases)
  next
    case (take t ts)
    with a b x w show ?thesis
      by (auto simp: inv_pool_def begun_def dest: set_update_cases)
  next
    case (scan t)
    with a b x w show ?thesis
      by (auto simp: inv_pool_def begun_def dest: set_update_cases)
  next
    case (incr t)
    with a b x w show ?thesis
      by (auto simp: inv_pool_def begun_def dest: set_update_cases)
  next
    case (print t)
    with a b x w show ?thesis
      by (auto simp: inv_pool_def begun_def dest: set_update_cases)
  qed
qed

lemma counting_nonempty:
  "i < length ws \<Longrightarrow> ws ! i = Running t Incr \<Longrightarrow> concat (map counting ws) \<noteq> []"
  using nth_mem [of i ws] by (auto intro!: bexI [of _ "ws ! i"])

lemma scanning_nonempty:
  "i < length ws \<Longrightarrow> ws ! i = Running t Scan \<Longrightarrow> concat (map scanning ws) \<noteq> []"
  using nth_mem [of i ws] by (auto intro!: bexI [of _ "ws ! i"])

lemma printing_nonempty:
  "i < length ws \<Longrightarrow> ws ! i = Running t Print \<Longrightarrow> concat (map printing ws) \<noteq> []"
  using nth_mem [of i ws] by (auto intro!: bexI [of _ "ws ! i"])

text \<open>
  What the scans have appended is part of what the regular files give, at every moment
  and whatever happens to the tree and the counters.
\<close>

lemma results_subset_expected:
  assumes "reachable c s"
  shows "mset (results s) \<subseteq># mset (expected c)"
proof (cases "begun s")
  case True
  with reachable_inv_results [OF assms]
  have "mset (results s) + owed (searchTerm c) (unscanned c s) = mset (expected c)"
    by (simp add: inv_results_def)
  then show ?thesis by (metis mset_subset_eq_add_left)
next
  case False
  with reachable_inv_early [OF assms] show ?thesis by (simp add: inv_early_def)
qed


lemma reachable_inv_exit: "reachable c s \<Longrightarrow> inv_exit c s"
proof (induction rule: reachable_invariant)
  case initial
  show ?case by (simp add: inv_exit_def initial_def)
next
  case (driver s s')
  then have st: "driver_step c s = Some s'" and ih: "inv_exit c s"
    and early: "inv_early c s" by (simp_all add: reachable_inv_early)
  from early have b: "begun s \<Longrightarrow> 3 \<le> length (argv c) \<and> \<not> snd (counting_pass c)"
    by (simp add: inv_early_def)
  from st show ?case
  proof (cases rule: driver_step_cases)
    case usage
    then show ?thesis by (simp add: inv_exit_def completes_def)
  next
    case missing
    then show ?thesis
      by (simp add: inv_exit_def completes_def counting_pass_def traversal_def)
  next
    case unresolvable
    then show ?thesis
      by (simp add: inv_exit_def completes_def counting_pass_def traversal_def)
  next
    case count_failed
    then show ?thesis by (simp add: inv_exit_def completes_def)
  next
    case joined
    with ih b show ?thesis by (simp add: inv_exit_def completes_def begun_def)
  next
    case unwound
    with ih show ?thesis by (simp add: inv_exit_def completes_def)
  qed (use ih in \<open>simp_all add: inv_exit_def\<close>)
next
  case (worker s i s')
  then have st: "worker_step c i s = Some s'" and ih: "inv_exit c s" by simp_all
  from st ih show ?case
    by (cases rule: worker_step_cases) (simp_all add: inv_exit_def)
qed

text \<open>\<open>main\<close> returns 0 or 1, and 0 exactly when the run completes.\<close>

lemma exit_code:
  assumes "reachable c s" "driver s = AtExit code"
  shows "(code = 0 \<and> completes c) \<or> (code = 1 \<and> \<not> completes c)"
  using reachable_inv_exit [OF assms(1)] assms(2) by (simp add: inv_exit_def split: if_splits)

lemma run_reachable_from:
  "reachable c s \<Longrightarrow> run c sched s = Some s' \<Longrightarrow> reachable c s'"
proof (induction sched arbitrary: s)
  case Nil
  then show ?case by simp
next
  case (Cons th sched)
  then show ?case
    by (auto split: option.splits intro: reachable_step)
qed

lemma run_reachable: "run c sched initial = Some s \<Longrightarrow> reachable c s"
  by (rule run_reachable_from [OF reachable_initial])

lemma result_of_regular:
  "result_of str (p, RegularFile f) =
     (case f of None \<Rightarrow> []
      | Some content \<Rightarrow>
          if scan_lines str content 0 [] = [] then [] else [(p, scan_lines str content 0 [])])"
  by (simp add: result_of_def searchInFile_def Let_def split: option.splits)

lemma is_regular_file_iff: "is_regular_file e \<longleftrightarrow> (\<exists>p f. e = (p, RegularFile f))"
  by (cases e rule: is_regular_file.cases) simp_all

lemma length_result_of: "length (result_of str t) \<le> 1"
  by (simp add: result_of_def searchInFile_def Let_def split: option.splits)

lemma length_concat_le:
  "(\<And>x. length (f x) \<le> 1) \<Longrightarrow> length (concat (map f xs)) \<le> length xs"
proof (induction xs)
  case Nil
  show ?case by simp
next
  case (Cons x xs)
  from Cons.prems have "length (f x) \<le> 1" .
  moreover from Cons have "length (concat (map f xs)) \<le> length xs" by simp
  ultimately show ?case by simp
qed

lemma length_expected: "length (expected c) \<le> length (regular_files c)"
  unfolding expected_def by (rule length_concat_le) (rule length_result_of)

lemma set_expected:
  "(p, ls) \<in> set (expected c) \<longleftrightarrow>
     (\<exists>content. (p, RegularFile (Some content)) \<in> set (regular_files c)
        \<and> ls = scan_lines (searchTerm c) content 0 [] \<and> ls \<noteq> [])"
proof
  assume "(p, ls) \<in> set (expected c)"
  then obtain e where e: "e \<in> set (regular_files c)" "(p, ls) \<in> set (result_of (searchTerm c) e)"
    by (auto simp: expected_def)
  from e(1) have "is_regular_file e" by (simp add: regular_files_def)
  then obtain q f where q: "e = (q, RegularFile f)" by (auto simp: is_regular_file_iff)
  with e(2) obtain content where "f = Some content" "q = p"
    "ls = scan_lines (searchTerm c) content 0 []" "ls \<noteq> []"
    by (auto simp: result_of_regular split: option.splits if_splits)
  with e(1) q show "\<exists>content. (p, RegularFile (Some content)) \<in> set (regular_files c)
        \<and> ls = scan_lines (searchTerm c) content 0 [] \<and> ls \<noteq> []"
    by auto
next
  assume "\<exists>content. (p, RegularFile (Some content)) \<in> set (regular_files c)
        \<and> ls = scan_lines (searchTerm c) content 0 [] \<and> ls \<noteq> []"
  then obtain content where h: "(p, RegularFile (Some content)) \<in> set (regular_files c)"
    "ls = scan_lines (searchTerm c) content 0 []" "ls \<noteq> []" by auto
  then have "(p, ls) \<in> set (result_of (searchTerm c) (p, RegularFile (Some content)))"
    by (simp add: result_of_regular)
  with h(1) show "(p, ls) \<in> set (expected c)"
    unfolding expected_def by auto
qed


section \<open>The examples, evaluated\<close>

lemma int32_small:
  "int32 1 = 1" "int32 2 = 2" "int32 3 = 3"
  by (simp_all add: int32_def)

lemmas demo_eval = demo_def demo_tree_def only_d_def demo_dispatch_def demo_schedule_def
  demo_schedule'_def demo_midway_def demo_mid_def demo_end_def demo_end'_def demo_missing_def
  demo_unresolvable_def demo_empty_def demo_denied_def demo_beside_def demo_grown_def
  demo_grown_schedule_def demo_no_worker_def demo_stuck_def
  initial_def driver_step_def worker_step_def counting_pass_def dispatch_pass_def traversal_def
  directoryPath_def searchTerm_def searching_def usage_def path_join_def report_def progress_def
  searchInFile_def scan_lines.simps string_find_def newline_def digits.simps digit_def
  to_string_def Let_def regular_files_def counted_files_def int32_small eval_nat_numeral

lemma demo_mid_run: "run demo demo_midway initial = Some demo_mid"
  by (simp add: demo_eval)

lemma demo_end_run: "run demo demo_schedule initial = Some demo_end"
  by (simp add: demo_eval)


lemma demo_regular_files:
  "regular_files demo =
     [(''d/a'', RegularFile (Some (''x foo'' @ [newline] @ ''y''))),
      (''d/b'', RegularFile None),
      (''d/sub/c'', RegularFile (Some (''z'' @ [newline] @ ''foofoo'' @ [newline])))]"
  by (simp add: demo_eval)

lemma demo_steady: "steady demo"
  by (simp add: steady_def demo_regular_files) (simp add: demo_def)

lemma demo_completes: "completes demo"
  by (simp add: completes_def demo_eval)

lemma demo_stuck_run: "run demo_no_worker demo_dispatch initial = Some demo_stuck"
  by (simp add: demo_eval)

section \<open>The counters on a steady tree\<close>

lemma steady_passes:
  assumes "steady c"
  shows "dispatch_pass c = counting_pass c" "counted_files c = regular_files c"
  using assms by (simp_all add: steady_def dispatch_pass_def counting_pass_def
      counted_files_def regular_files_def)

text \<open>
  On a steady tree the wrap-around never happens: \<open>total_files\<close> is the number of
  regular files, and \<open>files_processed\<close> is the number of tasks that have made their
  increment.
\<close>

lemma counters:
  assumes r: "reachable c s" and sc: "steady c" and b: "begun s"
  shows "total_files s = int (length (regular_files c))"
    "files_processed s + int (length (uncounted c s)) = total_files s"
    "int (length (concat (map printing (workers s)))) \<le> files_processed s"
proof -
  from sc have n: "int (length (regular_files c)) < 2147483648"
    by (simp add: steady_def)
  from early_begun(1) [OF r b] steady_passes(2) [OF sc]
  have "total_files s = int32 (int (length (regular_files c)))" by simp
  also have "\<dots> = int (length (regular_files c))"
    using n by (intro int32_id) simp_all
  finally show tot: "total_files s = int (length (regular_files c))" .
  from reachable_inv_counts [OF r] b
  have fp: "files_processed s
      = int32 (int (length (regular_files c)) - int (length (uncounted c s)))"
    and le: "int (length (uncounted c s)) + int (length (concat (map printing (workers s))))
        \<le> int (length (regular_files c))"
    by (simp_all add: inv_counts_def)
  have "int32 (int (length (regular_files c)) - int (length (uncounted c s)))
      = int (length (regular_files c)) - int (length (uncounted c s))"
    using n le by (intro int32_id) linarith+
  with fp have f: "files_processed s
      = int (length (regular_files c)) - int (length (uncounted c s))" by simp
  with tot show "files_processed s + int (length (uncounted c s)) = total_files s" by simp
  from f le show "int (length (concat (map printing (workers s)))) \<le> files_processed s"
    by linarith
qed

lemma not_begun_cases:
  assumes "\<not> begun s"
  shows "driver s = AtMain \<or> driver s = AtCount \<or> ((\<exists>code. driver s = AtExit code) \<and> \<not> stop s)"
  using assms by (cases "driver s") (simp_all add: begun_def)

lemma total_early:
  assumes r: "reachable c s" and sc: "steady c" and b: "\<not> begun s"
  shows "0 \<le> total_files s"
proof -
  from sc have n: "int (length (regular_files c)) < 2147483648"
    by (simp add: steady_def)
  have "int32 (int (length (counted_files c))) = int (length (regular_files c))"
    unfolding steady_passes(2) [OF sc] using n by (intro int32_id) simp_all
  with reachable_inv_early [OF r] not_begun_cases [OF b]
  have "total_files s = 0 \<or> total_files s = int (length (regular_files c))"
    unfolding inv_early_def by metis
  then show ?thesis by auto
qed

lemma processed_nonneg:
  assumes "reachable c s" "steady c"
  shows "0 \<le> files_processed s"
proof (cases "begun s")
  case True
  from counters(3) [OF assms True] show ?thesis by linarith
next
  case False
  with early_idle(4) [OF assms(1)] show ?thesis by simp
qed

lemma processed_le_total:
  assumes "reachable c s" "steady c"
  shows "files_processed s \<le> total_files s"
proof (cases "begun s")
  case True
  from counters(2) [OF assms True] show ?thesis by linarith
next
  case False
  with early_idle(4) [OF assms(1)] total_early [OF assms False] show ?thesis by simp
qed

lemma results_le_total:
  assumes "reachable c s" "steady c"
  shows "int (length (results s)) \<le> total_files s"
proof (cases "begun s")
  case True
  from results_subset_expected [OF assms(1)]
  have "size (mset (results s)) \<le> size (mset (expected c))"
    by (rule size_mset_mono)
  with length_expected [of c] have "length (results s) \<le> length (regular_files c)"
    by simp
  with counters(1) [OF assms True] show ?thesis by simp
next
  case False
  with early_idle(3) [OF assms(1)] total_early [OF assms False] show ?thesis by simp
qed

lemma drained_begun:
  assumes "reachable c s" "drained (driver s)"
  shows "begun s"
proof (cases "driver s = AtExit 0")
  case True
  with early_joined [OF assms(1)] show ?thesis by (simp add: begun_def)
next
  case False
  with assms(2) show ?thesis by (cases "driver s") (simp_all add: begun_def)
qed

lemma reachable_inv_drained:
  assumes "reachable c s" "steady c"
  shows "inv_drained c s"
  using assms(1)
proof (induction rule: reachable_invariant)
  case initial
  show ?case by (simp add: inv_drained_def initial_def)
next
  case (driver s s')
  then have st: "driver_step c s = Some s'" and ih: "inv_drained c s"
    and r: "reachable c s" by simp_all
  from st ih processed_le_total [OF r assms(2)] show ?case
    by (cases rule: driver_step_cases) (auto simp: inv_drained_def)
next
  case (worker s i s')
  then have st: "worker_step c i s = Some s'" and ih: "inv_drained c s"
    and r: "reachable c s" by simp_all
  from st show ?case
  proof (cases rule: worker_step_cases)
    case (incr t)
    have "\<not> drained (driver s)"
    proof
      assume d: "drained (driver s)"
      with ih counters(2) [OF r assms(2) drained_begun [OF r d]] have "uncounted c s = []"
        by (simp add: inv_drained_def)
      with counting_nonempty [OF incr(1,2)] show False
        by (simp add: uncounted_def)
    qed
    with incr show ?thesis by (simp add: inv_drained_def)
  qed (use ih in \<open>simp_all add: inv_drained_def\<close>)
qed

text \<open>Once the main thread has left the polling loop no task is outstanding.\<close>

lemma drained_no_task:
  assumes "reachable c s" "steady c" "drained (driver s)"
  shows "uncounted c s = []"
  using reachable_inv_drained [OF assms(1,2)]
    counters(2) [OF assms(1,2) drained_begun [OF assms(1,3)]] assms(3)
  by (simp add: inv_drained_def)

lemma drained_results:
  assumes "reachable c s" "steady c" "drained (driver s)"
  shows "mset (results s) = mset (expected c)"
proof -
  from drained_no_task [OF assms] have "unscanned c s = []"
    by (simp add: uncounted_def)
  with reachable_inv_results [OF assms(1)] drained_begun [OF assms(1,3)]
  show ?thesis by (simp add: inv_results_def)
qed

lemma report_no_progress: "\<forall>e \<in> set (report rs). \<not> is_progress e"
proof -
  have "\<forall>e \<in> set (concat (map result_lines rs)). \<not> is_progress e"
    by (induction rs) auto
  then show ?thesis by (auto simp: report_def)
qed

lemma running_begun:
  assumes "reachable c s" "workers s \<noteq> [] \<or> tasks s \<noteq> []"
  shows "begun s"
  using early_idle(1,2) [OF assms(1)] assms(2) by blast

lemma running_total:
  assumes "reachable c s" "steady c" "i < length (workers s)" "workers s ! i = Running t pc"
  shows "1 \<le> total_files s \<and> total_files s = int (length (regular_files c))"
proof -
  from assms(3) have "workers s \<noteq> []" by auto
  with running_begun [OF assms(1)] have b: "begun s" by simp
  note cn = counters [OF assms(1,2) b]
  have "1 \<le> total_files s"
  proof (cases pc)
    case Scan
    with scanning_nonempty [OF assms(3)] assms(4) have "uncounted c s \<noteq> []"
      by (simp add: uncounted_def unscanned_def)
    then have "0 < length (uncounted c s)" by simp
    with cn(2,3) show ?thesis by linarith
  next
    case Incr
    with counting_nonempty [OF assms(3)] assms(4) have "uncounted c s \<noteq> []"
      by (simp add: uncounted_def unscanned_def)
    then have "0 < length (uncounted c s)" by simp
    with cn(2,3) show ?thesis by linarith
  next
    case Print
    with printing_nonempty [OF assms(3)] assms(4)
    have "0 < length (concat (map printing (workers s)))" by simp
    with cn(2,3) show ?thesis by linarith
  qed
  with cn(1) show ?thesis by simp
qed

lemma queued_total:
  assumes "reachable c s" "steady c" "tasks s \<noteq> []"
  shows "1 \<le> total_files s"
proof -
  from running_begun [OF assms(1)] assms(3) have b: "begun s" by simp
  from assms(3) have "0 < length (uncounted c s)"
    by (simp add: uncounted_def unscanned_def)
  with counters(2) [OF assms(1,2) b] processed_nonneg [OF assms(1,2)]
  show ?thesis by linarith
qed

lemma reachable_inv_out:
  assumes "reachable c s" "steady c"
  shows "inv_out c s"
  using assms(1)
proof (induction rule: reachable_invariant)
  case initial
  show ?case by (simp add: inv_out_def initial_def)
next
  case (driver s s')
  then have st: "driver_step c s = Some s'" and ih: "inv_out c s" by simp_all
  from st ih report_no_progress [of "results s"] show ?case
    by (cases rule: driver_step_cases)
       (simp_all add: inv_out_def usage_def searching_def ball_Un)
next
  case (worker s i s')
  then have st: "worker_step c i s = Some s'" and ih: "inv_out c s"
    and r: "reachable c s" by simp_all
  from st show ?case
  proof (cases rule: worker_step_cases)
    case (print t)
    from running_total [OF r assms(2) print(1,2)]
    have "total_files s \<noteq> 0" "regular_files c \<noteq> []" by auto
    with print ih show ?thesis
      by (simp add: inv_out_def progress_def ball_Un)
  qed (use ih in \<open>simp_all add: inv_out_def\<close>)
qed

lemma reachable_inv_report:
  assumes "reachable c s" "steady c"
  shows "inv_report c s"
  using assms(1)
proof (induction rule: reachable_invariant)
  case initial
  show ?case by (simp add: inv_report_def initial_def reported_def)
next
  case (driver s s')
  then have st: "driver_step c s = Some s'" and ih: "inv_report c s" by simp_all
  from st ih show ?case
  proof (cases rule: driver_step_cases)
    case reported
    have "\<exists>pre post. out s @ report (results s) = pre @ report (results s) @ post"
      by (intro exI [of _ "out s"] exI [of _ "[]"]) simp
    with reported show ?thesis
      by (simp add: inv_report_def)
  qed (simp_all add: inv_report_def reported_def)
next
  case (worker s i s')
  then have st: "worker_step c i s = Some s'" and ih: "inv_report c s"
    and r: "reachable c s" by simp_all
  from st show ?case
  proof (cases rule: worker_step_cases)
    case (scan t)
    have "\<not> reported (driver s)"
    proof
      assume "reported (driver s)"
      then have "drained (driver s)" by (auto simp: reported_def)
      from drained_no_task [OF r assms(2) this] scanning_nonempty [OF scan(1,2)] show False
        by (simp add: uncounted_def unscanned_def)
    qed
    with scan show ?thesis by (simp add: inv_report_def)
  next
    case (print t)
    show ?thesis
    proof (cases "reported (driver s)")
      case True
      with ih obtain pre post where "out s = pre @ report (results s) @ post"
        by (auto simp: inv_report_def)
      then have "\<exists>pre' post'. out s @ [progress (files_processed s) (total_files s)]
          = pre' @ report (results s) @ post'"
        by (intro exI [of _ pre]
            exI [of _ "post @ [progress (files_processed s) (total_files s)]"]) simp
      with print show ?thesis
        by (simp add: inv_report_def)
    next
      case False
      with print show ?thesis by (simp add: inv_report_def)
    qed
  qed (use ih in \<open>simp_all add: inv_report_def\<close>)
qed

lemma step_total_fixed:
  assumes "step c th s = Some s'" "begun s"
  shows "total_files s' = total_files s"
proof (cases th)
  case Driver
  with assms(1) have "driver_step c s = Some s'" by simp
  then show ?thesis using assms(2)
    by (cases rule: driver_step_cases) (simp_all add: begun_def)
next
  case (Worker i)
  with assms(1) have "worker_step c i s = Some s'" by simp
  then show ?thesis
    by (cases rule: worker_step_cases) simp_all
qed

text \<open>On a steady tree an increment does not wrap around.\<close>

lemma incr_exact:
  assumes r: "reachable c s" and sc: "steady c"
    and i: "i < length (workers s)" and w: "workers s ! i = Running t Incr"
  shows "int32 (files_processed s + 1) = files_processed s + 1"
proof -
  from i have "workers s \<noteq> []" by auto
  with running_begun [OF r] have b: "begun s" by simp
  from counting_nonempty [OF i w] have "uncounted c s \<noteq> []"
    by (simp add: uncounted_def)
  then have u: "0 < int (length (uncounted c s))" by simp
  from sc have n: "int (length (regular_files c)) < 2147483648"
    by (simp add: steady_def)
  from u n counters(1,2) [OF r sc b] processed_nonneg [OF r sc]
  have "- 2147483648 \<le> files_processed s + 1" "files_processed s + 1 < 2147483648"
    by linarith+
  then show ?thesis by (rule int32_id)
qed

lemma step_processed:
  assumes "reachable c s" "steady c" "step c th s = Some s'"
  shows "files_processed s' = files_processed s +
    (if \<exists>i t. th = Worker i \<and> i < length (workers s) \<and> workers s ! i = Running t Incr
     then 1 else 0)"
proof (cases th)
  case Driver
  with assms(3) have "driver_step c s = Some s'" by simp
  then show ?thesis using Driver
    by (cases rule: driver_step_cases) simp_all
next
  case (Worker i)
  with assms(3) have "worker_step c i s = Some s'" by simp
  then show ?thesis using Worker
  proof (cases rule: worker_step_cases)
    case (incr t)
    with incr_exact [OF assms(1,2) incr(1,2)] Worker show ?thesis by auto
  qed simp_all
qed

lemma scan_then_incr:
  assumes "i < length (workers s)" "workers s ! i = Running t Scan"
  shows "\<exists>s'. step c (Worker i) s = Some s' \<and> workers s' ! i = Running t Incr
           \<and> files_processed s' = files_processed s"
  using assms by (simp add: worker_step_def)

lemma incr_then_print:
  assumes "reachable c s" "steady c" "i < length (workers s)" "workers s ! i = Running t Incr"
  shows "\<exists>s'. step c (Worker i) s = Some s' \<and> workers s' ! i = Running t Print
           \<and> files_processed s' = files_processed s + 1"
  using assms(3,4) incr_exact [OF assms] by (simp add: worker_step_def)

section \<open>A tree with \<open>2^31\<close> regular files\<close>

lemma walk_regular:
  "walk_entries d (map (\<lambda>x. (f x, RegularFile (g x))) xs)
     = (map (\<lambda>x. (path_join d (f x), RegularFile (g x))) xs, False)"
  by (induction xs) simp_all

lemma walk_numbered:
  "walk_entries d (numbered n)
     = (map (\<lambda>i. (path_join d (digits i), RegularFile None)) [0..<n], False)"
  unfolding numbered_def by (rule walk_regular)

lemma many_files_pass:
  "counting_pass many_files
     = ((''d/a'', RegularFile (Some ''foo''))
          # map (\<lambda>i. (path_join ''d'' (digits i), RegularFile None)) [0..<2147483647], False)"
  "dispatch_pass many_files = counting_pass many_files"
proof -
  have p: "path_join ''d'' ''a'' = ''d/a''" by (simp add: path_join_def)
  show "counting_pass many_files
     = ((''d/a'', RegularFile (Some ''foo''))
          # map (\<lambda>i. (path_join ''d'' (digits i), RegularFile None)) [0..<2147483647], False)"
    by (simp add: counting_pass_def traversal_def many_files_def only_d_def directoryPath_def
        walk_numbered p)
  show "dispatch_pass many_files = counting_pass many_files"
    by (simp add: counting_pass_def dispatch_pass_def many_files_def)
qed

lemma many_files_regular:
  "regular_files many_files
     = (''d/a'', RegularFile (Some ''foo''))
          # map (\<lambda>i. (path_join ''d'' (digits i), RegularFile None)) [0..<2147483647]"
  "counted_files many_files = regular_files many_files"
  "length (regular_files many_files) = 2147483648"
proof -
  show a: "regular_files many_files
     = (''d/a'', RegularFile (Some ''foo''))
          # map (\<lambda>i. (path_join ''d'' (digits i), RegularFile None)) [0..<2147483647]"
    by (simp add: regular_files_def many_files_pass filter_map comp_def)
  show "counted_files many_files = regular_files many_files"
    by (simp add: regular_files_def counted_files_def many_files_pass(2))
  show "length (regular_files many_files) = 2147483648"
    unfolding a by simp
qed

lemma many_files_count:
  "run many_files [Driver, Driver] initial
     = Some (initial\<lparr>total_files := - 2147483648, out := [searching many_files],
                     driver := AtPool\<rparr>)"
proof -
  have a: "length (argv many_files) = 3"
    "filesystem many_files (directoryPath many_files)
       = Found (Directory ((''a'', RegularFile (Some ''foo'')) # numbered 2147483647))"
    by (simp_all add: many_files_def only_d_def directoryPath_def)
  have n: "length (filter is_regular_file (fst (counting_pass many_files))) = 2147483648"
    using many_files_regular(2,3) by (simp add: counted_files_def)
  have w: "int32 2147483648 = - 2147483648" by (simp add: int32_def)
  have s: "snd (counting_pass many_files) = False" by (simp add: many_files_pass)
  have 1: "driver_step many_files initial
      = Some (initial\<lparr>out := [searching many_files], driver := AtCount\<rparr>)"
    by (simp add: driver_step_def a initial_def)
  have 2: "driver_step many_files (initial\<lparr>out := [searching many_files], driver := AtCount\<rparr>)
      = Some (initial\<lparr>total_files := - 2147483648, out := [searching many_files],
                     driver := AtPool\<rparr>)"
    using n s w by (simp add: driver_step_def initial_def split_beta Let_def)
  show ?thesis by (simp add: 1 2)
qed

section \<open>The counters and the progress line\<close>

text \<open>
  C10. The percentage of the progress line is computed only by a task. On a tree that
  is the same in both passes and has fewer than \<open>2^31\<close> regular files, whenever a task
  is queued or held by a worker \<open>total_files\<close> is at least 1, so the division is never
  by zero; and when the tree has no regular file no progress line is printed at all.
\<close>

theorem C10_no_division_by_zero:
  assumes "reachable c s" "steady c"
  shows "(\<forall>i t pc. i < length (workers s) \<and> workers s ! i = Running t pc \<longrightarrow> 1 \<le> total_files s)
       \<and> (tasks s \<noteq> [] \<longrightarrow> 1 \<le> total_files s)
       \<and> DivisionByZero \<notin> set (out s)
       \<and> (regular_files c = [] \<longrightarrow> (\<forall>e \<in> set (out s). \<not> is_progress e))"
proof -
  have "1 \<le> total_files s" if "tasks s \<noteq> []"
    using that by (rule queued_total [OF assms])
  moreover have "DivisionByZero \<notin> set (out s)"
    and "regular_files c = [] \<longrightarrow> (\<forall>e \<in> set (out s). \<not> is_progress e)"
    using reachable_inv_out [OF assms] by (auto simp: inv_out_def)
  ultimately show ?thesis
    using running_total [OF assms] by blast
qed

theorem C10_no_division_by_zero_witness:
  "reachable demo demo_mid \<and> steady demo
   \<and> workers demo_mid ! 0 = Running (''d/a'', RegularFile (Some (''x foo'' @ [newline] @ ''y''))) Print
   \<and> 1 \<le> total_files demo_mid
   \<and> DivisionByZero \<notin> set (out demo_mid)"
proof -
  have r: "reachable demo demo_mid"
    by (rule run_reachable [OF demo_mid_run])
  have "workers demo_mid ! 0 = Running (''d/a'', RegularFile (Some (''x foo'' @ [newline] @ ''y''))) Print"
    "0 < length (workers demo_mid)"
    by (simp_all add: demo_mid_def)
  with r demo_steady C10_no_division_by_zero [OF r demo_steady] show ?thesis by blast
qed

text \<open>
  Without the condition on the tree the statement fails. The directory is empty when
  it is counted, so \<open>total_files\<close> is 0, and has the file \<open>a\<close> when the second pass
  runs; the file is dispatched, and its task computes the percentage with the divisor 0.
\<close>

theorem C10_no_division_by_zero_counterexample:
  "run demo_grown demo_grown_schedule initial
     = Some \<lparr>tasks = [], stop = False, workers = [Waiting], results = [(''d/a'', [1])],
             files_processed = 1, total_files = 0,
             out = [searching demo_grown, DivisionByZero], driver = AtDispatch [] False\<rparr>"
  by (simp add: demo_eval)

text \<open>
  C3. On a tree that is the same in both passes and has fewer than \<open>2^31\<close> regular
  files: in every reachable state \<open>files_processed\<close> is at most \<open>total_files\<close> and so
  is the number of results. From the end of the counting pass on, \<open>total_files\<close> is the
  number of regular files and no step changes it, and no task or worker exists before;
  from then on the two counters are equal exactly when no task is outstanding (to be
  enqueued, queued, or held by a worker before its increment), which is also exactly
  when the main thread can leave its polling loop. A step changes \<open>files_processed\<close>
  only when it is the increment of a task, by one; a task that has scanned goes on to its
  increment whatever the scan found.
\<close>

theorem C3_counters:
  assumes "reachable c s" "steady c"
  shows "files_processed s \<le> total_files s
     \<and> int (length (results s)) \<le> total_files s
     \<and> (begun s \<longrightarrow> (files_processed s = total_files s \<longleftrightarrow> uncounted c s = []))
     \<and> (driver s = AtDrain \<longrightarrow>
          (driver_step c s \<noteq> None \<longleftrightarrow> files_processed s = total_files s))
     \<and> (tasks s \<noteq> [] \<or> workers s \<noteq> [] \<longrightarrow> begun s)
     \<and> (begun s \<longrightarrow> total_files s = int (length (regular_files c)))
     \<and> (\<forall>th s'. step c th s = Some s' \<longrightarrow>
          (begun s \<longrightarrow> total_files s' = total_files s)
          \<and> files_processed s' = files_processed s +
              (if \<exists>i t. th = Worker i \<and> i < length (workers s)
                        \<and> workers s ! i = Running t Incr then 1 else 0))
     \<and> (\<forall>i t. i < length (workers s) \<and> workers s ! i = Running t Scan \<longrightarrow>
          (\<exists>s'. step c (Worker i) s = Some s' \<and> workers s' ! i = Running t Incr
                \<and> files_processed s' = files_processed s))
     \<and> (\<forall>i t. i < length (workers s) \<and> workers s ! i = Running t Incr \<longrightarrow>
          (\<exists>s'. step c (Worker i) s = Some s' \<and> workers s' ! i = Running t Print
                \<and> files_processed s' = files_processed s + 1))"
proof -
  note le = processed_le_total [OF assms]
  have a: "begun s \<longrightarrow> (files_processed s = total_files s \<longleftrightarrow> uncounted c s = [])"
    using counters(2) [OF assms] by auto
  have b: "driver s = AtDrain \<longrightarrow>
      (driver_step c s \<noteq> None \<longleftrightarrow> files_processed s = total_files s)"
    using le by (auto simp: driver_step_def)
  have d: "tasks s \<noteq> [] \<or> workers s \<noteq> [] \<longrightarrow> begun s"
    using running_begun [OF assms(1)] by blast
  have e: "begun s \<longrightarrow> total_files s = int (length (regular_files c))"
    using counters(1) [OF assms] by simp
  have f: "\<forall>th s'. step c th s = Some s' \<longrightarrow>
          (begun s \<longrightarrow> total_files s' = total_files s)
          \<and> files_processed s' = files_processed s +
              (if \<exists>i t. th = Worker i \<and> i < length (workers s)
                        \<and> workers s ! i = Running t Incr then 1 else 0)"
    using step_total_fixed step_processed [OF assms] by blast
  have g: "\<forall>i t. i < length (workers s) \<and> workers s ! i = Running t Scan \<longrightarrow>
          (\<exists>s'. step c (Worker i) s = Some s' \<and> workers s' ! i = Running t Incr
                \<and> files_processed s' = files_processed s)"
    using scan_then_incr by blast
  have h: "\<forall>i t. i < length (workers s) \<and> workers s ! i = Running t Incr \<longrightarrow>
          (\<exists>s'. step c (Worker i) s = Some s' \<and> workers s' ! i = Running t Print
                \<and> files_processed s' = files_processed s + 1)"
    using incr_then_print [OF assms] by blast
  from le results_le_total [OF assms] a b d e f g h show ?thesis by blast
qed

theorem C3_counters_witness:
  "reachable demo demo_mid \<and> steady demo
   \<and> files_processed demo_mid = 1 \<and> total_files demo_mid = 3
   \<and> files_processed demo_mid \<le> total_files demo_mid
   \<and> int (length (results demo_mid)) \<le> total_files demo_mid
   \<and> uncounted demo demo_mid \<noteq> []
   \<and> (\<exists>s'. step demo (Worker 1) demo_mid = Some s' \<and> files_processed s' = 2)"
proof -
  have r: "reachable demo demo_mid"
    by (rule run_reachable [OF demo_mid_run])
  have v: "files_processed demo_mid = 1" "total_files demo_mid = 3"
    "driver demo_mid = AtDrain" "1 < length (workers demo_mid)"
    "workers demo_mid ! 1 = Running (''d/b'', RegularFile None) Incr" "begun demo_mid"
    by (simp_all add: demo_mid_def begun_def)
  from C3_counters [OF r demo_steady] v show ?thesis
    by (simp add: r demo_steady) blast
qed

text \<open>
  Without the bound the statement fails: the tree of \<open>2^31\<close> regular files is not
  modified, and when the counting pass is over \<open>total_files\<close> is \<open>- 2^31\<close>, less than
  \<open>files_processed\<close>, which is 0. And before the counting pass the two counters are
  equal while every file is still to be dispatched.
\<close>

theorem C3_counters_counterexample:
  "run many_files [Driver, Driver] initial
     = Some (initial\<lparr>total_files := - 2147483648, out := [searching many_files],
                     driver := AtPool\<rparr>)
   \<and> later many_files = filesystem many_files
   \<and> length (regular_files many_files) = 2147483648
   \<and> total_files (initial\<lparr>total_files := - 2147483648, out := [searching many_files],
                           driver := AtPool\<rparr>)
       < files_processed (initial\<lparr>total_files := - 2147483648, out := [searching many_files],
                                   driver := AtPool\<rparr>)
   \<and> files_processed initial = total_files initial
   \<and> uncounted demo initial \<noteq> []"
proof -
  have "later many_files = filesystem many_files"
    by (simp add: many_files_def)
  moreover have "uncounted demo initial \<noteq> []"
    by (simp add: uncounted_def unscanned_def initial_def demo_regular_files)
  moreover have "total_files (initial\<lparr>total_files := - 2147483648, out := [searching many_files],
                           driver := AtPool\<rparr>)
       < files_processed (initial\<lparr>total_files := - 2147483648, out := [searching many_files],
                                   driver := AtPool\<rparr>)"
    "files_processed initial = total_files initial"
    by (simp_all add: initial_def)
  ultimately show ?thesis
    using many_files_count many_files_regular(3) by (intro conjI)
qed

section \<open>Every run ends\<close>

lemma sum_list_map_update:
  fixes f :: "'a \<Rightarrow> nat"
  shows "i < length ws \<Longrightarrow>
    sum_list (map f (ws[i := w])) + f (ws ! i) = sum_list (map f ws) + f w"
  by (induction ws arbitrary: i) (auto split: nat.splits)

lemma driver_step_decreases:
  assumes "driver_step c s = Some s'"
  shows "remaining c s' < remaining c s"
  using assms
  by (cases rule: driver_step_cases)
     (simp_all add: remaining_def sum_list_replicate)

lemma worker_step_decreases:
  assumes "worker_step c i s = Some s'"
  shows "remaining c s' < remaining c s"
  using assms
proof (cases rule: worker_step_cases)
  case leave
  with sum_list_map_update [of i "workers s" weight_w Exited]
  show ?thesis by (simp add: remaining_def)
next
  case (take t ts)
  with sum_list_map_update [of i "workers s" weight_w "Running t Scan"]
  show ?thesis by (simp add: remaining_def)
next
  case (scan t)
  with sum_list_map_update [of i "workers s" weight_w "Running t Incr"]
  show ?thesis by (simp add: remaining_def)
next
  case (incr t)
  with sum_list_map_update [of i "workers s" weight_w "Running t Print"]
  show ?thesis by (simp add: remaining_def)
next
  case (print t)
  with sum_list_map_update [of i "workers s" weight_w Waiting]
  show ?thesis by (simp add: remaining_def)
qed

lemma step_decreases: "step c th s = Some s' \<Longrightarrow> remaining c s' < remaining c s"
  by (cases th) (simp_all add: driver_step_decreases worker_step_decreases)

lemma running_can_step:
  "i < length (workers s) \<Longrightarrow> workers s ! i = Running t pc \<Longrightarrow> worker_step c i s \<noteq> None"
  by (cases pc) (simp_all add: worker_step_def)

lemma waiting_can_step:
  "i < length (workers s) \<Longrightarrow> workers s ! i = Waiting \<Longrightarrow> stop s \<or> tasks s \<noteq> [] \<Longrightarrow>
     worker_step c i s \<noteq> None"
  by (cases "tasks s") (simp_all add: worker_step_def)

lemma outstanding_cases:
  assumes "uncounted c s \<noteq> []" "pending c (driver s) = []"
  obtains "tasks s \<noteq> []"
  | i t pc where "i < length (workers s)" "workers s ! i = Running t pc"
proof (cases "tasks s = []")
  case False
  then show ?thesis by (rule that(1))
next
  case True
  with assms have "concat (map scanning (workers s)) \<noteq> [] \<or> concat (map counting (workers s)) \<noteq> []"
    by (simp add: uncounted_def unscanned_def)
  then obtain w where w: "w \<in> set (workers s)" "scanning w \<noteq> [] \<or> counting w \<noteq> []"
    by auto
  have "\<exists>t pc. w = Running t pc"
  proof (cases w)
    case Waiting
    with w(2) show ?thesis by simp
  next
    case (Running t pc)
    then show ?thesis by blast
  next
    case Exited
    with w(2) show ?thesis by simp
  qed
  with w(1) show ?thesis
    by (auto simp: in_set_conv_nth intro: that(2))
qed

lemma joining_can_step:
  assumes "stop s" "\<not> list_all (\<lambda>w. w = Exited) (workers s)"
  shows "\<exists>i. worker_step c i s \<noteq> None"
proof -
  from assms(2) obtain i where i: "i < length (workers s)" "workers s ! i \<noteq> Exited"
    by (auto simp: list_all_length)
  from i(2) show ?thesis
  proof (cases "workers s ! i")
    case Waiting
    from waiting_can_step [OF i(1) Waiting] assms(1) show ?thesis by blast
  next
    case (Running t pc)
    from running_can_step [OF i(1) Running] show ?thesis by blast
  qed simp
qed

text \<open>As long as \<open>main\<close> has not returned some thread can move.\<close>

lemma can_step:
  assumes "reachable c s" and "live c" and "\<not> exited s"
  shows "\<exists>th s'. step c th s = Some s'"
proof -
  note pool = reachable_inv_pool [OF assms(1)]
  note counts = reachable_inv_counts [OF assms(1)]
  have drv: "driver_step c s \<noteq> None \<Longrightarrow> ?thesis"
    by (metis not_None_eq step.simps(1))
  have wrk: "\<And>i. worker_step c i s \<noteq> None \<Longrightarrow> ?thesis"
    by (metis not_None_eq step.simps(2))
  show ?thesis
  proof (cases "driver s")
    case AtMain
    then show ?thesis by (intro drv) (simp add: driver_step_def split: status.splits)
  next
    case AtCount
    then show ?thesis by (intro drv) (simp add: driver_step_def Let_def split: prod.splits)
  next
    case AtPool
    then show ?thesis by (intro drv) (simp add: driver_step_def)
  next
    case (AtDispatch es failed)
    then show ?thesis by (intro drv) (simp add: driver_step_def split: list.splits)
  next
    case AtReport
    then show ?thesis by (intro drv) (simp add: driver_step_def)
  next
    case AtStop
    then show ?thesis by (intro drv) (simp add: driver_step_def)
  next
    case AtThrown
    then show ?thesis by (intro drv) (simp add: driver_step_def)
  next
    case (AtExit code)
    with assms(3) show ?thesis by (simp add: exited_def)
  next
    case AtDrain
    then have b: "begun s" by (simp add: begun_def)
    show ?thesis
    proof (cases "files_processed s < total_files s")
      case False
      with AtDrain show ?thesis by (intro drv) (simp add: driver_step_def)
    next
      case True
      from early_begun(1) [OF assms(1) b] assms(2)
      have tot: "total_files s = int32 (int (length (regular_files c)))"
        by (simp add: live_def)
      from counts b have fp: "files_processed s
          = int32 (int (length (regular_files c)) - int (length (uncounted c s)))"
        by (simp add: inv_counts_def)
      from True tot fp have out: "uncounted c s \<noteq> []" by auto
      from AtDrain have "pending c (driver s) = []" by simp
      with out show ?thesis
      proof (cases rule: outstanding_cases)
        case 1
        have len: "0 < length (workers s)"
        proof (rule ccontr)
          assume "\<not> 0 < length (workers s)"
          then have e: "workers s = []" by simp
          with pool have z: "files_processed s = 0" by (simp add: inv_pool_def)
          from e pool b AtDrain have "hardware_concurrency c = 0" by (simp add: inv_pool_def)
          with assms(2) tot have "total_files s \<le> 0" by (simp add: live_def)
          with z True show False by simp
        qed
        from early_stop [OF assms(1)] AtDrain have "\<not> stop s" by auto
        with pool have "Exited \<notin> set (workers s)" by (auto simp: inv_pool_def)
        with len have "workers s ! 0 \<noteq> Exited" by (metis nth_mem)
        then show ?thesis
        proof (cases "workers s ! 0")
          case Waiting
          from waiting_can_step [OF len Waiting] 1 show ?thesis by (intro wrk) simp
        next
          case (Running t pc)
          from running_can_step [OF len Running] show ?thesis by (rule wrk)
        qed simp
      next
        case (2 i t pc)
        from running_can_step [OF 2] show ?thesis by (rule wrk)
      qed
    qed
  next
    case AtJoin
    show ?thesis
    proof (cases "list_all (\<lambda>w. w = Exited) (workers s)")
      case True
      with AtJoin show ?thesis by (intro drv) (simp add: driver_step_def)
    next
      case False
      from early_joined [OF assms(1)] AtJoin have "stop s" by simp
      from joining_can_step [OF this False] wrk show ?thesis by blast
    qed
  next
    case AtUnwind
    show ?thesis
    proof (cases "list_all (\<lambda>w. w = Exited) (workers s)")
      case True
      with AtUnwind show ?thesis by (intro drv) (simp add: driver_step_def)
    next
      case False
      from early_joined [OF assms(1)] AtUnwind have "stop s" by simp
      from joining_can_step [OF this False] wrk show ?thesis by blast
    qed
  qed
qed

lemma inevitable_exit:
  assumes "live c" and "reachable c s"
  shows "inevitable c exited s"
  using assms(2)
proof (induction "remaining c s" arbitrary: s rule: less_induct)
  case less
  show ?case
  proof (cases "exited s")
    case True
    then show ?thesis by (rule inevitable_now)
  next
    case False
    show ?thesis
    proof (rule inevitable_later)
      show "\<exists>th s'. step c th s = Some s'"
        by (rule can_step [OF less.prems assms(1) False])
    next
      fix th s'
      assume st: "step c th s = Some s'"
      show "inevitable c exited s'"
        by (rule less.hyps [OF step_decreases [OF st] reachable_step [OF less.prems st]])
    qed
  qed
qed

lemma inevitable_strengthen:
  assumes "inevitable c P s" "reachable c s"
    and "\<And>s. reachable c s \<Longrightarrow> P s \<Longrightarrow> Q s"
  shows "inevitable c Q s"
  using assms(1,2)
proof (induction rule: inevitable.induct)
  case (inevitable_now s)
  then show ?case by (auto intro: inevitable.inevitable_now assms(3))
next
  case (inevitable_later s)
  show ?case
  proof (rule inevitable.inevitable_later)
    show "\<exists>t s'. step c t s = Some s'" by (rule inevitable_later(1))
  next
    fix t s'
    assume st: "step c t s = Some s'"
    show "inevitable c Q s'"
      by (rule inevitable_later(3) [OF st reachable_step [OF inevitable_later(4) st]])
  qed
qed


lemma inevitable_exit_0:
  assumes "live c" "completes c" "reachable c s"
  shows "inevitable c (\<lambda>s. driver s = AtExit 0) s"
proof (rule inevitable_strengthen [OF inevitable_exit [OF assms(1,3)] assms(3)])
  fix s
  assume r: "reachable c s" and "exited s"
  then obtain code where "driver s = AtExit code" by (auto simp: exited_def)
  with exit_code [OF r this] assms(2) show "driver s = AtExit 0" by simp
qed

lemma stable_live:
  assumes "later c = filesystem c"
    and "0 < hardware_concurrency c \<or> regular_files c = []"
  shows "live c"
proof -
  from assms(1) have "counted_files c = regular_files c"
    by (simp add: counted_files_def regular_files_def counting_pass_def dispatch_pass_def)
  with assms(2) show ?thesis by (auto simp: live_def)
qed

lemma stable_completes:
  assumes "later c = filesystem c" "3 \<le> length (argv c)" "\<not> snd (counting_pass c)"
  shows "completes c"
  using assms by (simp add: completes_def counting_pass_def dispatch_pass_def)

section \<open>Files that do not open\<close>



section \<open>The directory does not exist\<close>

text \<open>
  C6. When both arguments are given and the file system answers that the directory
  path names nothing, the only step of the program is the one in which \<open>main\<close> writes
  the message to the error stream and returns 1: no worker is created, no task is
  enqueued or run, and nothing else is printed.
\<close>

theorem C6_missing_directory:
  assumes "3 \<le> length (argv c)" "filesystem c (directoryPath c) = NotFound"
  shows "step c Driver initial = Some exit_missing
     \<and> (\<forall>th. step c th exit_missing = None)
     \<and> (\<forall>i. step c (Worker i) initial = None)
     \<and> (\<forall>s. reachable c s \<longrightarrow> s = initial \<or> s = exit_missing)
     \<and> inevitable c (\<lambda>s. s = exit_missing) initial
     \<and> driver exit_missing = AtExit 1
     \<and> out exit_missing = [Cerr ''Directory does not exist.'']
     \<and> workers exit_missing = [] \<and> tasks exit_missing = [] \<and> results exit_missing = []
     \<and> files_processed exit_missing = 0"
proof -
  have a: "step c Driver initial = Some exit_missing"
    using assms by (simp add: driver_step_def initial_def exit_missing_def)
  have b: "step c th exit_missing = None" for th
    by (cases th) (simp_all add: driver_step_def worker_step_def exit_missing_def initial_def)
  have d: "step c (Worker i) initial = None" for i
    by (simp add: worker_step_def initial_def)
  have e: "s = initial \<or> s = exit_missing" if "reachable c s" for s
    using that
  proof (induction rule: reachable.induct)
    case reachable_initial
    show ?case by simp
  next
    case (reachable_step s th s')
    from reachable_step(3) show ?case
    proof
      assume i: "s = initial"
      with reachable_step(2) d have "th = Driver" by (cases th) simp_all
      with reachable_step(2) i a show ?thesis by simp
    next
      assume "s = exit_missing"
      with reachable_step(2) b show ?thesis by simp
    qed
  qed
  have f: "inevitable c (\<lambda>s. s = exit_missing) initial"
  proof (rule inevitable_later)
    from a show "\<exists>th s'. step c th initial = Some s'" by blast
  next
    fix th s'
    assume st: "step c th initial = Some s'"
    with d have "th = Driver" by (cases th) simp_all
    with st a have "s' = exit_missing" by simp
    then show "inevitable c (\<lambda>s. s = exit_missing) s'" by (rule inevitable_now)
  qed
  have g: "driver exit_missing = AtExit 1
     \<and> out exit_missing = [Cerr ''Directory does not exist.'']
     \<and> workers exit_missing = [] \<and> tasks exit_missing = [] \<and> results exit_missing = []
     \<and> files_processed exit_missing = 0"
    by (simp add: exit_missing_def initial_def)
  from b have b': "\<forall>th. step c th exit_missing = None" by (rule allI)
  from d have d': "\<forall>i. step c (Worker i) initial = None" by (rule allI)
  from e have e': "\<forall>s. reachable c s \<longrightarrow> s = initial \<or> s = exit_missing"
    by (intro allI impI)
  show ?thesis
    by (intro conjI a b' d' e' f g [THEN conjunct1] g [THEN conjunct2])
qed

theorem C6_missing_directory_witness:
  "3 \<le> length (argv demo_missing)
   \<and> filesystem demo_missing (directoryPath demo_missing) = NotFound
   \<and> run demo_missing [Driver] initial = Some exit_missing
   \<and> step demo_missing Driver exit_missing = None
   \<and> step demo_missing (Worker 0) exit_missing = None"
proof -
  have h: "3 \<le> length (argv demo_missing)"
    "filesystem demo_missing (directoryPath demo_missing) = NotFound"
    by (simp_all add: demo_missing_def demo_def directoryPath_def only_d_def)
  note t = C6_missing_directory [OF h]
  from t have a: "step demo_missing Driver initial = Some exit_missing" by (rule conjunct1)
  from t have b: "\<forall>th. step demo_missing th exit_missing = None"
    by (elim conjE)
  from a have "run demo_missing [Driver] initial = Some exit_missing" by simp
  with h b show ?thesis by (intro conjI) (simp_all only:)
qed

text \<open>
  For a path that names nothing because it cannot be resolved the statement fails:
  \<open>fs::exists\<close> throws, and \<open>main\<close> returns 1 having printed the line of its handler,
  \<open>Filesystem error: \<dots>\<close>, and not \<open>Directory does not exist.\<close>
\<close>

theorem C6_missing_directory_counterexample:
  "3 \<le> length (argv demo_unresolvable)
   \<and> filesystem demo_unresolvable (directoryPath demo_unresolvable) = Unresolvable
   \<and> run demo_unresolvable [Driver] initial
       = Some (initial\<lparr>out := [FilesystemError], driver := AtExit 1\<rparr>)"
  by (simp add: demo_unresolvable_def directoryPath_def driver_step_def initial_def)

section \<open>What the search reports\<close>

lemma matching_numbers_Nil:
  "matching_numbers t ls = [] \<longleftrightarrow> \<not> (\<exists>l \<in> set ls. line_matches t l)"
proof -
  have "(\<exists>i<length ls. line_matches t (ls ! i)) \<longleftrightarrow> (\<exists>l \<in> set ls. line_matches t l)"
    by (metis in_set_conv_nth)
  then show ?thesis
    unfolding matching_numbers_def by (auto simp: filter_empty_conv)
qed

lemma scan_lines_Nil:
  "scan_lines t content 0 [] = [] \<longleftrightarrow> \<not> (\<exists>l \<in> set (file_lines content). line_matches t l)"
  by (simp add: scan_lines_wrapped matching_numbers_Nil)

text \<open>
  A pass that does not throw started on a directory, and has visited exactly what is
  under it.
\<close>

lemma traversal_under:
  assumes "\<not> snd (traversal fs root)"
  obtains ds where "fs root = Found (Directory ds)"
    "set (fst (traversal fs root)) = {(q, m). under root ds q m}"
proof (cases "fs root")
  case NotFound
  with assms show ?thesis by (simp add: traversal_def)
next
  case Unresolvable
  with assms show ?thesis by (simp add: traversal_def)
next
  case (Found n)
  show ?thesis
  proof (cases n)
    case (Directory ds)
    with Found assms have "\<not> snd (walk_entries root ds)" by (simp add: traversal_def)
    from walk_under(1) [OF this] Found Directory
    have "set (fst (traversal fs root)) = {(q, m). under root ds q m}"
      by (simp add: traversal_def)
    with Found Directory show ?thesis by (intro that) simp_all
  qed (use Found assms in \<open>simp_all add: traversal_def\<close>)
qed

lemma fst_set_expected:
  assumes "later c = filesystem c" "\<not> snd (counting_pass c)"
  shows "fst ` set (expected c) = matching_files c"
proof -
  from assms(2) obtain ds where ds: "filesystem c (directoryPath c) = Found (Directory ds)"
    "set (fst (counting_pass c)) = {(q, m). under (directoryPath c) ds q m}"
    unfolding counting_pass_def by (rule traversal_under)
  from assms(1) have "dispatch_pass c = counting_pass c"
    by (simp add: dispatch_pass_def counting_pass_def)
  with ds(2) have reg: "(p, RegularFile f) \<in> set (regular_files c)
      \<longleftrightarrow> under (directoryPath c) ds p (RegularFile f)" for p f
    by (simp add: regular_files_def)
  show ?thesis
  proof (rule set_eqI)
    fix p
    have "p \<in> fst ` set (expected c) \<longleftrightarrow> (\<exists>ls. (p, ls) \<in> set (expected c))"
      by force
    also have "\<dots> \<longleftrightarrow> (\<exists>content. (p, RegularFile (Some content)) \<in> set (regular_files c)
          \<and> scan_lines (searchTerm c) content 0 [] \<noteq> [])"
      by (simp only: set_expected) blast
    also have "\<dots> \<longleftrightarrow> p \<in> matching_files c"
      by (simp add: matching_files_def reg ds(1) scan_lines_Nil)
    finally show "p \<in> fst ` set (expected c) \<longleftrightarrow> p \<in> matching_files c" .
  qed
qed

lemma expected_nonempty_lines: "(p, ls) \<in> set (expected c) \<Longrightarrow> ls \<noteq> []"
  by (simp only: set_expected) blast

text \<open>
  C1. The tree is the same in both passes and has fewer than \<open>2^31\<close> regular files.
  Once the main thread has left its polling loop, the result collection holds one pair
  for each regular file under the root that opens and has a line containing the term,
  and nothing else: its paths are exactly the matching files, no entry has an empty list
  of lines, and it is the collection that the report prints. When both arguments are
  given, the traversal does not throw and the pool has a worker, every run comes to the
  point where \<open>main\<close> returns 0 having reported exactly the matching files, whatever
  the schedule.
\<close>

theorem C1_reported_files:
  assumes "steady c"
  shows "(reachable c s \<and> drained (driver s) \<longrightarrow>
       fst ` set (results s) = matching_files c
     \<and> (\<forall>p ls. (p, ls) \<in> set (results s) \<longrightarrow> ls \<noteq> [])
     \<and> mset (results s) = mset (expected c)
     \<and> (reported (driver s) \<longrightarrow> (\<exists>pre post. out s = pre @ report (results s) @ post)))
   \<and> (3 \<le> length (argv c) \<and> \<not> snd (counting_pass c) \<and> 0 < hardware_concurrency c \<longrightarrow>
        inevitable c
          (\<lambda>s. driver s = AtExit 0 \<and> fst ` set (results s) = matching_files c
               \<and> (\<exists>pre post. out s = pre @ report (results s) @ post)) initial)"
proof -
  from assms have stable: "later c = filesystem c" by (simp add: steady_def)
  have a: "fst ` set (results s) = matching_files c
     \<and> (\<forall>p ls. (p, ls) \<in> set (results s) \<longrightarrow> ls \<noteq> [])
     \<and> mset (results s) = mset (expected c)
     \<and> (reported (driver s) \<longrightarrow> (\<exists>pre post. out s = pre @ report (results s) @ post))"
    if r: "reachable c s" and d: "drained (driver s)" for s
  proof -
    have m: "mset (results s) = mset (expected c)"
      by (rule drained_results [OF r assms d])
    then have e: "set (results s) = set (expected c)"
      by (rule mset_eq_setD)
    have "fst ` set (results s) = matching_files c"
      using fst_set_expected [OF stable early_begun(2) [OF r drained_begun [OF r d]]]
      by (simp only: e)
    moreover have "\<forall>p ls. (p, ls) \<in> set (results s) \<longrightarrow> ls \<noteq> []"
      using e expected_nonempty_lines by blast
    moreover have "reported (driver s) \<longrightarrow> (\<exists>pre post. out s = pre @ report (results s) @ post)"
      using reachable_inv_report [OF r assms] by (simp add: inv_report_def)
    ultimately show ?thesis using m by blast
  qed
  have b: "inevitable c
          (\<lambda>s. driver s = AtExit 0 \<and> fst ` set (results s) = matching_files c
               \<and> (\<exists>pre post. out s = pre @ report (results s) @ post)) initial"
    if h: "3 \<le> length (argv c) \<and> \<not> snd (counting_pass c) \<and> 0 < hardware_concurrency c"
  proof -
    from h have "live c" "completes c"
      by (simp_all add: stable_live [OF stable] stable_completes [OF stable])
    then have "inevitable c (\<lambda>s. driver s = AtExit 0) initial"
      by (rule inevitable_exit_0) (rule reachable_initial)
    then show ?thesis
    proof (rule inevitable_strengthen [OF _ reachable_initial])
      fix s
      assume r: "reachable c s" and x: "driver s = AtExit 0"
      then have "drained (driver s)" "reported (driver s)" by (simp_all add: reported_def)
      with a [OF r] x
      show "driver s = AtExit 0 \<and> fst ` set (results s) = matching_files c
               \<and> (\<exists>pre post. out s = pre @ report (results s) @ post)"
        by blast
    qed
  qed
  from a b show ?thesis by blast
qed

lemma demo_expected: "expected demo = [(''d/a'', [1]), (''d/sub/c'', [2])]"
proof -
  have st: "searchTerm demo = ''foo''"
    by (simp add: searchTerm_def demo_def)
  show ?thesis
    by (simp add: expected_def demo_regular_files st result_of_regular scan_lines.simps
        string_find_def newline_def int32_small)
qed

lemma demo_matching_files: "matching_files demo = {''d/a'', ''d/sub/c''}"
proof -
  have "fst ` set (expected demo) = {''d/a'', ''d/sub/c''}"
    by (simp add: demo_expected)
  moreover have "later demo = filesystem demo" "\<not> snd (counting_pass demo)"
    by (simp_all add: demo_eval)
  ultimately show ?thesis using fst_set_expected [of demo] by simp
qed

theorem C1_reported_files_witness:
  "steady demo \<and> reachable demo demo_end \<and> drained (driver demo_end)
   \<and> fst ` set (results demo_end) = {''d/a'', ''d/sub/c''}
   \<and> matching_files demo = {''d/a'', ''d/sub/c''}
   \<and> inevitable demo
        (\<lambda>s. driver s = AtExit 0 \<and> fst ` set (results s) = matching_files demo
             \<and> (\<exists>pre post. out s = pre @ report (results s) @ post)) initial"
proof -
  have r: "reachable demo demo_end"
    by (rule run_reachable [OF demo_end_run])
  have d: "drained (driver demo_end)"
    by (simp add: demo_end_def)
  have h: "3 \<le> length (argv demo) \<and> \<not> snd (counting_pass demo) \<and> 0 < hardware_concurrency demo"
    by (simp add: demo_eval)
  note t = C1_reported_files [OF demo_steady, of demo_end]
  from t [THEN conjunct1, THEN mp, OF conjI [OF r d], THEN conjunct1]
  have "fst ` set (results demo_end) = {''d/a'', ''d/sub/c''}"
    by (simp only: demo_matching_files)
  moreover from t [THEN conjunct2, THEN mp, OF h]
  have "inevitable demo
        (\<lambda>s. driver s = AtExit 0 \<and> fst ` set (results s) = matching_files demo
             \<and> (\<exists>pre post. out s = pre @ report (results s) @ post)) initial" .
  ultimately show ?thesis using r d demo_matching_files demo_steady by blast
qed

text \<open>
  Without the conditions the statement fails. Beside the file \<open>a\<close>, which has the term,
  there is a directory that cannot be listed: the counting pass throws, and \<open>main\<close>
  returns 1 with nothing reported. And on a machine that reports no hardware threads
  the pool has no worker: the three files of the first example are enqueued, and then
  no thread can move.
\<close>

theorem C1_reported_files_counterexample:
  "''d/a'' \<in> matching_files demo_beside
   \<and> run demo_beside [Driver, Driver] initial
       = Some (initial\<lparr>total_files := 1, out := [searching demo_beside, FilesystemError],
                       driver := AtExit 1\<rparr>)
   \<and> ''d/a'' \<in> matching_files demo_no_worker
   \<and> run demo_no_worker demo_dispatch initial = Some demo_stuck
   \<and> results demo_stuck = []
   \<and> step demo_no_worker Driver demo_stuck = None
   \<and> (\<forall>i. step demo_no_worker (Worker i) demo_stuck = None)"
proof -
  have l: "file_lines ''foo'' = [''foo'']" "file_lines (''x foo'' @ [newline] @ ''y'') = [''x foo'', ''y'']"
    by (simp_all add: file_lines.simps newline_def)
  have m: "line_matches ''foo'' ''foo''" "line_matches ''foo'' ''x foo''"
    by (simp_all add: line_matches_def sublist_Cons_right)
  have p: "path_join ''d'' ''a'' = ''d/a''" by (simp add: path_join_def)
  have "under ''d'' [(''a'', RegularFile (Some ''foo'')), (''sub'', DeniedDirectory)]
      (path_join ''d'' ''a'') (RegularFile (Some ''foo''))"
    by (rule under_here) simp
  then have "\<exists>content. under ''d''
      [(''a'', RegularFile (Some ''foo'')), (''sub'', DeniedDirectory)]
      ''d/a'' (RegularFile (Some content))
      \<and> (\<exists>l \<in> set (file_lines content). line_matches ''foo'' l)"
    unfolding p using l(1) m(1) by (intro exI [of _ "''foo''"]) simp
  then have a: "''d/a'' \<in> matching_files demo_beside"
    by (simp add: matching_files_def demo_beside_def only_d_def directoryPath_def
        searchTerm_def)
  have "under ''d''
      [(''a'', RegularFile (Some (''x foo'' @ [newline] @ ''y''))),
       (''b'', RegularFile None),
       (''o'', Other),
       (''sub'', Directory [(''c'', RegularFile (Some (''z'' @ [newline] @ ''foofoo'' @ [newline])))])]
      (path_join ''d'' ''a'') (RegularFile (Some (''x foo'' @ [newline] @ ''y'')))"
    by (rule under_here) simp
  then have "\<exists>content. under ''d''
      [(''a'', RegularFile (Some (''x foo'' @ [newline] @ ''y''))),
       (''b'', RegularFile None),
       (''o'', Other),
       (''sub'', Directory [(''c'', RegularFile (Some (''z'' @ [newline] @ ''foofoo'' @ [newline])))])]
      ''d/a'' (RegularFile (Some content))
      \<and> (\<exists>l \<in> set (file_lines content). line_matches ''foo'' l)"
    unfolding p using l(2) m(2) by (intro exI [of _ "''x foo'' @ [newline] @ ''y''"]) simp
  then have b: "''d/a'' \<in> matching_files demo_no_worker"
    by (simp add: matching_files_def demo_no_worker_def demo_def demo_tree_def only_d_def
        directoryPath_def searchTerm_def)
  have d: "run demo_beside [Driver, Driver] initial
       = Some (initial\<lparr>total_files := 1, out := [searching demo_beside, FilesystemError],
                       driver := AtExit 1\<rparr>)"
    by (simp add: demo_eval)
  have e: "results demo_stuck = []" "step demo_no_worker Driver demo_stuck = None"
    "\<forall>i. step demo_no_worker (Worker i) demo_stuck = None"
    by (simp_all add: demo_stuck_def driver_step_def worker_step_def)
  from a b d demo_stuck_run e show ?thesis by (intro conjI)
qed

section \<open>Two runs on the same tree\<close>





section \<open>A tree without regular files\<close>








section \<open>The thread pool: case analysis and invariants\<close>

lemma pool_step_cases [consumes 1, case_names enqueue notify_one notify_nobody sleep leave take
    finish set_stop notify_all join]:
  assumes "pool_step a s = Some s'"
  obtains
    f where "a = Enqueue f" "phase s = Open"
      "s' = s\<lparr>pool_tasks := pool_tasks s @ [f], notifying := notifying s + 1,
               submitted := submitted s @ [f]\<rparr>"
  | i where "a = NotifyOne i" "0 < notifying s" "i < length (pool_workers s)"
      "pool_workers s ! i = Asleep"
      "s' = s\<lparr>pool_workers := (pool_workers s)[i := Idle], notifying := notifying s - 1\<rparr>"
  | "a = NotifyNobody" "0 < notifying s" "Asleep \<notin> set (pool_workers s)"
      "s' = s\<lparr>notifying := notifying s - 1\<rparr>"
  | i where "a = Work i" "i < length (pool_workers s)" "pool_workers s ! i = Idle"
      "\<not> pool_stop s" "pool_tasks s = []"
      "s' = s\<lparr>pool_workers := (pool_workers s)[i := Asleep]\<rparr>"
  | i where "a = Work i" "i < length (pool_workers s)" "pool_workers s ! i = Idle"
      "pool_stop s" "pool_tasks s = []"
      "s' = s\<lparr>pool_workers := (pool_workers s)[i := Gone]\<rparr>"
  | i t ts where "a = Work i" "i < length (pool_workers s)" "pool_workers s ! i = Idle"
      "pool_tasks s = t # ts"
      "s' = s\<lparr>pool_tasks := ts, pool_workers := (pool_workers s)[i := Busy t]\<rparr>"
  | i t where "a = Work i" "i < length (pool_workers s)" "pool_workers s ! i = Busy t"
      "s' = s\<lparr>pool_workers := (pool_workers s)[i := Idle], executed := executed s @ [t]\<rparr>"
  | "a = SetStop" "phase s = Open" "notifying s = 0"
      "s' = s\<lparr>pool_stop := True, phase := Stopping\<rparr>"
  | "a = NotifyAll" "phase s = Stopping"
      "s' = s\<lparr>pool_workers := map wake (pool_workers s), phase := Joining\<rparr>"
  | "a = Join" "phase s = Joining" "list_all (\<lambda>w. w = Gone) (pool_workers s)"
      "s' = s\<lparr>phase := Destroyed\<rparr>"
proof (cases a)
  case (Enqueue f)
  with assms that(1) show ?thesis by (simp split: if_splits)
next
  case (NotifyOne i)
  with assms that(2) show ?thesis by (simp split: if_splits)
next
  case NotifyNobody
  with assms that(3) show ?thesis by (simp split: if_splits)
next
  case (Work i)
  with assms have i: "i < length (pool_workers s)" by (simp split: if_splits)
  show ?thesis
  proof (cases "pool_workers s ! i")
    case Idle
    with assms Work i that(4,5,6) show ?thesis
      by (cases "pool_tasks s") (simp_all split: if_splits)
  next
    case Asleep
    with assms Work i show ?thesis by simp
  next
    case (Busy t)
    with assms Work i that(7) show ?thesis by simp
  next
    case Gone
    with assms Work i show ?thesis by simp
  qed
next
  case SetStop
  with assms that(8) show ?thesis by (simp split: if_splits)
next
  case NotifyAll
  with assms that(9) show ?thesis by (simp split: if_splits)
next
  case Join
  with assms that(10) show ?thesis by (simp split: if_splits)
qed

lemma busy_wake: "busy (wake w) = busy w"
  by (cases w) simp_all

lemma concat_busy_wake: "concat (map (busy \<circ> wake) ws) = concat (map busy ws)"
  by (induction ws) (simp_all add: busy_wake)

lemma wake_Gone: "wake w = Gone \<longleftrightarrow> w = Gone"
  by (cases w) simp_all

lemma Gone_wake: "Gone \<in> wake ` S \<longleftrightarrow> Gone \<in> S"
proof
  assume "Gone \<in> wake ` S"
  then obtain w where "Gone = wake w" "w \<in> S" by blast
  then show "Gone \<in> S" using wake_Gone [of w] by simp
next
  assume "Gone \<in> S"
  then have "wake Gone \<in> wake ` S" by (rule imageI)
  then show "Gone \<in> wake ` S" by simp
qed

lemma wake_not_Asleep: "wake w \<noteq> Asleep"
  by (cases w) simp_all

lemma Asleep_wake: "Asleep \<notin> wake ` S"
proof
  assume "Asleep \<in> wake ` S"
  then obtain w where "Asleep = wake w" "w \<in> S" by blast
  with wake_not_Asleep [of w] show False by simp
qed

lemma pool_reachable_inv: "pool_reachable n s \<Longrightarrow> pool_inv n s"
proof (induction rule: pool_reachable.induct)
  case pool_reachable_initial
  show ?case by (simp add: pool_inv_def ThreadPool_def)
next
  case (pool_reachable_step s a s')
  from pool_reachable_step(2) show ?case
  proof (cases rule: pool_step_cases)
    case (enqueue f)
    with pool_reachable_step(3) show ?thesis by (auto simp: pool_inv_def)
  next
    case (notify_one i)
    with pool_reachable_step(3) nth_mem [of i "pool_workers s"]
      concat_update_mset [of i "pool_workers s" busy Idle]
    show ?thesis by (auto simp: pool_inv_def dest: set_update_cases)
  next
    case notify_nobody
    with pool_reachable_step(3) show ?thesis by (auto simp: pool_inv_def)
  next
    case (sleep i)
    with pool_reachable_step(3) nth_mem [of i "pool_workers s"]
      concat_update_mset [of i "pool_workers s" busy Asleep]
    show ?thesis by (auto simp: pool_inv_def dest: set_update_cases)
  next
    case (leave i)
    with pool_reachable_step(3) nth_mem [of i "pool_workers s"]
      concat_update_mset [of i "pool_workers s" busy Gone]
    show ?thesis by (auto simp: pool_inv_def dest: set_update_cases)
  next
    case (take i t ts)
    with pool_reachable_step(3) nth_mem [of i "pool_workers s"]
      concat_update_mset [of i "pool_workers s" busy "Busy t"]
    show ?thesis by (auto simp: pool_inv_def dest: set_update_cases)
  next
    case (finish i t)
    with pool_reachable_step(3) nth_mem [of i "pool_workers s"]
      concat_update_mset [of i "pool_workers s" busy Idle]
    show ?thesis by (auto simp: pool_inv_def dest: set_update_cases)
  next
    case set_stop
    with pool_reachable_step(3) show ?thesis by (auto simp: pool_inv_def)
  next
    case notify_all
    with pool_reachable_step(3) show ?thesis
      by (simp add: pool_inv_def concat_busy_wake Gone_wake Asleep_wake)
  next
    case join
    with pool_reachable_step(3) show ?thesis
      by (auto simp: pool_inv_def list_all_iff)
  qed
qed

section \<open>The thread pool: nothing is lost, and everything runs\<close>

lemma pool_awake_step:
  assumes "0 < n" "pool_inv n s" "pool_awake s" "pool_step a s = Some s'"
  shows "pool_awake s'"
  using assms(4)
proof (cases rule: pool_step_cases)
  case (enqueue f)
  then show ?thesis by (simp add: pool_awake_def)
next
  case (notify_one i)
  with set_update_memI [of i "pool_workers s" Idle] show ?thesis
    by (auto simp: pool_awake_def)
next
  case notify_nobody
  show ?thesis
  proof (cases "pool_tasks s = []")
    case True
    with notify_nobody show ?thesis by (simp add: pool_awake_def)
  next
    case False
    with assms(2) have g: "Gone \<notin> set (pool_workers s)" by (auto simp: pool_inv_def)
    from assms(1,2) have "pool_workers s \<noteq> []" by (auto simp: pool_inv_def)
    then obtain w where w: "w \<in> set (pool_workers s)" by (cases "pool_workers s") auto
    with g notify_nobody(3) have "w = Idle \<or> (\<exists>t. w = Busy t)" by (cases w) auto
    with w notify_nobody show ?thesis by (auto simp: pool_awake_def)
  qed
next
  case (sleep i)
  then show ?thesis by (simp add: pool_awake_def)
next
  case (leave i)
  then show ?thesis by (simp add: pool_awake_def)
next
  case (take i t ts)
  with set_update_memI [of i "pool_workers s" "Busy t"] show ?thesis
    by (auto simp: pool_awake_def)
next
  case (finish i t)
  with set_update_memI [of i "pool_workers s" Idle] show ?thesis
    by (auto simp: pool_awake_def)
next
  case set_stop
  with assms(3) show ?thesis by (simp add: pool_awake_def)
next
  case notify_all
  have "\<exists>w \<in> wake ` set (pool_workers s). w = Idle \<or> (\<exists>t. w = Busy t)"
    if "w \<in> set (pool_workers s)" "w = Idle \<or> (\<exists>t. w = Busy t)" for w
  proof -
    from that(2) have "wake w = w" by auto
    with that show ?thesis by (metis imageI)
  qed
  with notify_all assms(3) show ?thesis by (auto simp: pool_awake_def)
next
  case join
  with assms(3) show ?thesis by (simp add: pool_awake_def)
qed

lemma pool_reachable_awake:
  assumes "0 < n" "pool_reachable n s"
  shows "pool_awake s"
  using assms(2)
proof (induction rule: pool_reachable.induct)
  case pool_reachable_initial
  show ?case by (simp add: pool_awake_def ThreadPool_def)
next
  case (pool_reachable_step s a s')
  from pool_awake_step [OF assms(1) pool_reachable_inv [OF pool_reachable_step(1)]
      pool_reachable_step(3) pool_reachable_step(2)]
  show ?case .
qed

lemma sum_list_weight_wake:
  "sum_list (map (weight_p \<circ> wake) ws) \<le> sum_list (map weight_p ws) + length ws"
proof (induction ws)
  case Nil
  show ?case by simp
next
  case (Cons w ws)
  have "weight_p (wake w) \<le> weight_p w + 1" by (cases w) simp_all
  with Cons show ?case by simp
qed

lemma pool_step_decreases:
  assumes "pool_step a s = Some s'" "internal a"
  shows "pool_remaining s' < pool_remaining s"
  using assms(1)
proof (cases rule: pool_step_cases)
  case (enqueue f)
  with assms(2) show ?thesis by simp
next
  case (notify_one i)
  with sum_list_map_update [of i "pool_workers s" weight_p Idle]
  show ?thesis by (simp add: pool_remaining_def)
next
  case notify_nobody
  then show ?thesis by (simp add: pool_remaining_def)
next
  case (sleep i)
  with sum_list_map_update [of i "pool_workers s" weight_p Asleep]
  show ?thesis by (simp add: pool_remaining_def)
next
  case (leave i)
  with sum_list_map_update [of i "pool_workers s" weight_p Gone]
  show ?thesis by (simp add: pool_remaining_def)
next
  case (take i t ts)
  with sum_list_map_update [of i "pool_workers s" weight_p "Busy t"]
  show ?thesis by (simp add: pool_remaining_def)
next
  case (finish i t)
  with sum_list_map_update [of i "pool_workers s" weight_p Idle]
  show ?thesis by (simp add: pool_remaining_def)
next
  case set_stop
  with assms(2) show ?thesis by simp
next
  case notify_all
  with sum_list_weight_wake [of "pool_workers s"]
  show ?thesis by (simp add: pool_remaining_def)
next
  case join
  then show ?thesis by (simp add: pool_remaining_def)
qed

lemma internal_enabled:
  "internal a \<Longrightarrow> pool_step a s \<noteq> None \<Longrightarrow> \<exists>a s'. internal a \<and> pool_step a s = Some s'"
  by blast

lemma pool_can_step:
  assumes "0 < n" "pool_reachable n s" "\<not> all_done s"
  shows "\<exists>a s'. internal a \<and> pool_step a s = Some s'"
proof -
  note inv = pool_reachable_inv [OF assms(2)]
  note awake = pool_reachable_awake [OF assms(1,2)]
  have work: "\<exists>a s'. internal a \<and> pool_step a s = Some s'"
    if "i < length (pool_workers s)"
      "(\<exists>t. pool_workers s ! i = Busy t)
       \<or> pool_workers s ! i = Idle \<and> (pool_stop s \<or> pool_tasks s \<noteq> [])" for i
  proof -
    from that have "pool_step (Work i) s \<noteq> None"
      by (cases "pool_tasks s") auto
    then show ?thesis using internal_enabled [of "Work i" s] by simp
  qed
  show ?thesis
  proof (cases "phase s")
    case Stopping
    then have "pool_step NotifyAll s \<noteq> None" by simp
    then show ?thesis using internal_enabled [of NotifyAll s] by simp
  next
    case Joining
    show ?thesis
    proof (cases "list_all (\<lambda>w. w = Gone) (pool_workers s)")
      case True
      with Joining have "pool_step Join s \<noteq> None" by simp
      then show ?thesis using internal_enabled [of Join s] by simp
    next
      case False
      then obtain i where i: "i < length (pool_workers s)" "pool_workers s ! i \<noteq> Gone"
        by (auto simp: list_all_length)
      from inv Joining nth_mem [OF i(1)] have "pool_workers s ! i \<noteq> Asleep" "pool_stop s"
        by (auto simp: pool_inv_def)
      with i(2) have "(\<exists>t. pool_workers s ! i = Busy t)
          \<or> pool_workers s ! i = Idle \<and> (pool_stop s \<or> pool_tasks s \<noteq> [])"
        by (cases "pool_workers s ! i") auto
      with i(1) show ?thesis by (rule work)
    qed
  next
    case Destroyed
    with inv have g: "\<forall>w \<in> set (pool_workers s). w = Gone"
      and len: "length (pool_workers s) = n" by (simp_all add: pool_inv_def)
    from len assms(1) have "pool_workers s \<noteq> []" by auto
    with g have "Gone \<in> set (pool_workers s)" by (cases "pool_workers s") auto
    with inv have t: "pool_tasks s = []" by (simp add: pool_inv_def)
    from g have "concat (map busy (pool_workers s)) = []" by auto
    with inv t have "mset (executed s) = mset (submitted s)" by (simp add: pool_inv_def)
    with t Destroyed assms(3) show ?thesis by (simp add: all_done_def)
  next
    case Open
    show ?thesis
    proof (cases "\<exists>i<length (pool_workers s). \<exists>t. pool_workers s ! i = Busy t")
      case True
      then show ?thesis using work by blast
    next
      case False
      have "busy w = []" if "w \<in> set (pool_workers s)" for w
      proof (cases w)
        case (Busy t)
        with that False show ?thesis by (auto simp: in_set_conv_nth)
      qed simp_all
      then have "\<forall>w \<in> set (pool_workers s). busy w = []" by blast
      then have "concat (map busy (pool_workers s)) = []" by simp
      with inv have "mset (submitted s) = mset (pool_tasks s) + mset (executed s)"
        by (simp add: pool_inv_def)
      with assms(3) Open have q: "pool_tasks s \<noteq> []" by (auto simp: all_done_def)
      with awake have "(\<exists>w \<in> set (pool_workers s). w = Idle \<or> (\<exists>t. w = Busy t))
          \<or> 0 < notifying s"
        by (simp add: pool_awake_def)
      then show ?thesis
      proof
        assume "\<exists>w \<in> set (pool_workers s). w = Idle \<or> (\<exists>t. w = Busy t)"
        then obtain i where "i < length (pool_workers s)"
          "pool_workers s ! i = Idle \<or> (\<exists>t. pool_workers s ! i = Busy t)"
          by (auto simp: in_set_conv_nth)
        with q work [of i] show ?thesis by blast
      next
        assume nt: "0 < notifying s"
        show ?thesis
        proof (cases "Asleep \<in> set (pool_workers s)")
          case True
          then obtain i where "i < length (pool_workers s)" "pool_workers s ! i = Asleep"
            by (auto simp: in_set_conv_nth)
          with nt have "pool_step (NotifyOne i) s \<noteq> None" by simp
          then show ?thesis using internal_enabled [of "NotifyOne i" s] by simp
        next
          case False
          with nt have "pool_step NotifyNobody s \<noteq> None" by simp
          then show ?thesis using internal_enabled [of NotifyNobody s] by simp
        qed
      qed
    qed
  qed
qed

lemma pool_settles:
  assumes "0 < n" "pool_reachable n s"
  shows "settles all_done s"
  using assms(2)
proof (induction "pool_remaining s" arbitrary: s rule: less_induct)
  case less
  show ?case
  proof (cases "all_done s")
    case True
    then show ?thesis by (rule settles_now)
  next
    case False
    show ?thesis
    proof (rule settles_later)
      show "\<exists>a s'. internal a \<and> pool_step a s = Some s'"
        by (rule pool_can_step [OF assms(1) less.prems False])
    next
      fix a s'
      assume a: "internal a" and st: "pool_step a s = Some s'"
      show "settles all_done s'"
        by (rule less.hyps [OF pool_step_decreases [OF st a]
              pool_reachable_step [OF less.prems st]])
    qed
  qed
qed

lemma pool_run_reachable_from:
  "pool_reachable n s \<Longrightarrow> pool_run as s = Some s' \<Longrightarrow> pool_reachable n s'"
proof (induction as arbitrary: s)
  case Nil
  then show ?case by simp
next
  case (Cons a as)
  then show ?case
    by (auto split: option.splits intro: pool_reachable_step)
qed

lemma worker_returns:
  assumes "pool_step a s = Some s'" "i < length (pool_workers s)"
    "pool_workers s ! i \<noteq> Gone" "pool_workers s' ! i = Gone"
  shows "a = Work i \<and> pool_workers s ! i = Idle \<and> pool_stop s \<and> pool_tasks s = []"
  using assms(1)
proof (cases rule: pool_step_cases)
  case (notify_one j)
  with assms(2,3,4) show ?thesis by (cases "i = j") simp_all
next
  case (sleep j)
  with assms(2,3,4) show ?thesis by (cases "i = j") simp_all
next
  case (leave j)
  with assms(2,3,4) show ?thesis by (cases "i = j") simp_all
next
  case (take j t ts)
  with assms(2,3,4) show ?thesis by (cases "i = j") simp_all
next
  case (finish j t)
  with assms(2,3,4) show ?thesis by (cases "i = j") simp_all
next
  case notify_all
  with assms(2,3,4) show ?thesis by (simp add: wake_Gone)
qed (use assms(3,4) in simp_all)

text \<open>
  The pool as the code has it, when it has at least one worker. Whatever the clients and
  the threads do: every submitted task is in the queue, held by a worker, or has run,
  once for each time it was submitted, so none is lost and none runs twice; a worker
  returns only by taking the branch of line 37, with the flag set and the queue empty;
  a pool that has been destroyed has run every submitted task; and left to itself the
  pool always comes to a state in which every submitted task has run and a destructor
  that has begun has finished.
\<close>

lemma pool_with_worker:
  assumes "0 < n" "pool_reachable n s"
  shows "mset (submitted s)
           = mset (pool_tasks s) + mset (concat (map busy (pool_workers s))) + mset (executed s)
     \<and> (\<forall>a s' i. pool_step a s = Some s' \<and> i < length (pool_workers s)
           \<and> pool_workers s ! i \<noteq> Gone \<and> pool_workers s' ! i = Gone
         \<longrightarrow> a = Work i \<and> pool_stop s \<and> pool_tasks s = [])
     \<and> (Gone \<in> set (pool_workers s) \<longrightarrow> pool_stop s \<and> pool_tasks s = [])
     \<and> (phase s = Destroyed \<longrightarrow> mset (executed s) = mset (submitted s))
     \<and> settles all_done s"
proof -
  note inv = pool_reachable_inv [OF assms(2)]
  have a: "mset (submitted s)
           = mset (pool_tasks s) + mset (concat (map busy (pool_workers s))) + mset (executed s)"
    using inv by (simp add: pool_inv_def)
  have b: "\<forall>a s' i. pool_step a s = Some s' \<and> i < length (pool_workers s)
           \<and> pool_workers s ! i \<noteq> Gone \<and> pool_workers s' ! i = Gone
         \<longrightarrow> a = Work i \<and> pool_stop s \<and> pool_tasks s = []"
    using worker_returns by blast
  have d: "Gone \<in> set (pool_workers s) \<longrightarrow> pool_stop s \<and> pool_tasks s = []"
    using inv by (auto simp: pool_inv_def)
  have e: "phase s = Destroyed \<longrightarrow> mset (executed s) = mset (submitted s)"
  proof
    assume p: "phase s = Destroyed"
    with inv have g: "\<forall>w \<in> set (pool_workers s). w = Gone"
      and len: "length (pool_workers s) = n" by (simp_all add: pool_inv_def)
    from len assms(1) have "pool_workers s \<noteq> []" by auto
    with g have "Gone \<in> set (pool_workers s)" by (cases "pool_workers s") auto
    with d have t: "pool_tasks s = []" by simp
    from g have "concat (map busy (pool_workers s)) = []" by auto
    with a t show "mset (executed s) = mset (submitted s)" by simp
  qed
  from a b d e pool_settles [OF assms] show ?thesis by (intro conjI)
qed

lemma pool_demo_run: "pool_run pool_demo_actions (ThreadPool 2) = Some pool_demo"
  by (simp add: pool_demo_actions_def pool_demo_def ThreadPool_def eval_nat_numeral)

lemma pool_demo_delivers:
  "pool_reachable 2 pool_demo
   \<and> mset (submitted pool_demo)
       = mset (pool_tasks pool_demo) + mset (concat (map busy (pool_workers pool_demo)))
         + mset (executed pool_demo)
   \<and> settles all_done pool_demo"
proof -
  have r: "pool_reachable 2 pool_demo"
    by (rule pool_run_reachable_from [OF pool_reachable_initial pool_demo_run])
  have p: "(0::nat) < 2" by simp
  note t = pool_with_worker [OF p r]
  from t have a: "mset (submitted pool_demo)
       = mset (pool_tasks pool_demo) + mset (concat (map busy (pool_workers pool_demo)))
         + mset (executed pool_demo)" by (rule conjunct1)
  from t have b: "settles all_done pool_demo" by (elim conjE)
  from r a b show ?thesis by (intro conjI)
qed

text \<open>
  C2. The pool has no condition on the number of its workers, and \<open>search\<close> creates it
  with \<open>std::thread::hardware_concurrency()\<close> of them, which may be 0. A pool created
  with no worker takes a task, whose client notifies nobody, and is destroyed, its
  destructor having nobody to join: the task is still in the queue and has never run.
  So a submitted task is lost, where the specification says that every submitted task
  runs before the pool is destroyed.
\<close>

theorem C2_no_worker_loses_task:
  "pool_run [Enqueue (1::nat), NotifyNobody, SetStop, NotifyAll, Join] (ThreadPool 0)
     = Some \<lparr>pool_tasks = [1], pool_stop = True, pool_workers = [], notifying = 0,
              phase = Destroyed, submitted = [1], executed = []\<rparr>"
  by (simp add: ThreadPool_def)

end
